theory Spec2Isabelle
  imports
    Complex_Main
    "HOL-Library.FSet"
    "HOL-Library.Finite_Map"
    "HOL-Library.Char_ord"
    "HOL-Library.List_Lexorder"
    "HOL-Library.Multiset"
    "HOL-Library.Signed_Division"
    "HOL-Library.Log_Nat"
begin

section \<open>Tokenizer (string\_processing.cpp, string\_processing.h)\<close>

text \<open>
  A \<open>std::string_view\<close> is modelled by its contents, a \<^typ>\<open>string\<close>. Strings are
  compared byte-wise and lexicographically, a proper prefix coming first, as
  \<open>string_view::compare\<close> does; that is the order of \<open>Char_ord\<close> and \<open>List_Lexorder\<close>.
\<close>

text \<open>\<open>str.find(c)\<close>: the index of the first occurrence, \<open>None\<close> for \<open>npos\<close>.\<close>

fun find_char :: "char \<Rightarrow> string \<Rightarrow> nat option" where
  "find_char c [] = None"
| "find_char c (x # xs) =
     (if x = c then Some 0
      else (case find_char c xs of None \<Rightarrow> None | Some i \<Rightarrow> Some (Suc i)))"

text \<open>
  \<open>SplitIntoWords\<close>: the \<open>while (true)\<close> loop pushes \<open>str.substr(0, space)\<close> on every
  round, stops when no space is left and otherwise removes the prefix up to and including
  the space.
\<close>

function SplitIntoWords :: "string \<Rightarrow> string list" where
  "SplitIntoWords str =
     (case find_char (CHR '' '') str of
        None \<Rightarrow> [str]
      | Some space \<Rightarrow> take space str # SplitIntoWords (drop (space + 1) str))"
  by pat_completeness auto
termination
proof (relation "measure length")
  fix str :: string and space :: nat
  assume found: "find_char (CHR '' '') str = Some space"
  have "find_char c s = Some i \<Longrightarrow> i < length s" for c s i
    by (induction s arbitrary: i) (auto split: if_splits option.splits)
  from this [OF found] show "(drop (space + 1) str, str) \<in> measure length"
    by simp
qed simp

declare SplitIntoWords.simps [simp del]

text \<open>\<open>MakeUniqueNonEmptyStrings\<close>: the set of the non-empty strings of a container.\<close>

definition MakeUniqueNonEmptyStrings :: "string list \<Rightarrow> string fset" where
  "MakeUniqueNonEmptyStrings strings =
     fold (\<lambda>str non_empty_strings.
             if str \<noteq> [] then finsert str non_empty_strings else non_empty_strings)
          strings {||}"

section \<open>The search server (search\_server.cpp)\<close>

subsection \<open>Data\<close>

text \<open>
  The class declaration (\<open>search_server.h\<close>) and \<open>document.h\<close> are not among the sources;
  the members are taken from their uses in \<open>search_server.cpp\<close>. Document ids and ratings
  are C++ \<open>int\<close>, modelled as \<^typ>\<open>int\<close>; the index only compares ids, and the
  arithmetic on ratings wraps (\<open>wrap32\<close> below). A \<open>double\<close> is the \<^typ>\<open>real\<close> number it
  stands for, and every operation on doubles rounds its exact result (\<open>to_double\<close> below). A
  \<open>std::map\<close> is a finite map and is iterated in ascending key order; a \<open>std::set\<close> is a
  finite set.

  The keys of the two posting maps are \<open>string_view\<close>s. They are modelled by the strings
  they read, and that is what they are as long as the text they point into exists: the
  keys of \<open>document_to_word_freqs_[id]\<close> point into \<open>documents_[id].text\<close>, a key of
  \<open>word_to_document_freqs_\<close> into the text of the document that first had the word
  (\<open>AddDocument\<close> splits \<open>it->second.text\<close>). Only \<open>RemoveDocument\<close> erases an entry of
  \<open>documents_\<close>, and there the model says what reading such a key afterwards is.
\<close>

text \<open>
  Modelled from the spec: \<open>document.h\<close>, which declares \<open>DocumentStatus\<close>, is not among
  the sources; the statuses are the four that the specification names.
\<close>

datatype DocumentStatus = ACTIVE | IRRELEVANT | BANNED | REMOVED

record DocumentData =
  rating :: int
  status :: DocumentStatus
  doc_text :: string

record SearchServer =
  stop_words :: "string fset"
  word_to_document_freqs :: "(string, (int, real) fmap) fmap"
  document_to_word_freqs :: "(int, (string, real) fmap) fmap"
  documents :: "(int, DocumentData) fmap"
  document_ids :: "int fset"

text \<open>
  The ways a call ends other than by returning: \<open>std::invalid_argument\<close> with its
  message, the \<open>std::out_of_range\<close> of \<open>map::at\<close>, \<open>std::terminate\<close>, which a parallel
  algorithm calls when an element access function throws, and \<open>use_after_free\<close>: the call
  reads a \<open>string_view\<close> whose text has been destroyed, which is undefined behaviour (the
  program may throw, stop or go on with any result).
\<close>

datatype exn = invalid_argument string | out_of_range | terminate | use_after_free

text \<open>
  A freshly constructed server. The constructor that fills \<open>stop_words_\<close> from a container
  is in the header; the stop-word set is therefore a parameter here.
\<close>

definition new_server :: "string fset \<Rightarrow> SearchServer" where
  "new_server sw =
     \<lparr>stop_words = sw, word_to_document_freqs = fmempty, document_to_word_freqs = fmempty,
      documents = fmempty, document_ids = {||}\<rparr>"

subsection \<open>Words\<close>

text \<open>
  \<open>IsValidWord\<close>: no character \<open>c\<close> with \<open>c >= '\0' && c < ' '\<close>. \<open>char_value\<close> reads a
  \<open>char\<close> as a signed byte; with an unsigned \<open>char\<close> the test selects the same bytes,
  \<open>0x00\<close> to \<open>0x1F\<close>.
\<close>

definition char_value :: "char \<Rightarrow> int" where
  "char_value c = (let n = of_char c in if n < 128 then n else n - 256)"

definition IsValidWord :: "string \<Rightarrow> bool" where
  "IsValidWord word = (\<not> list_ex (\<lambda>c. char_value c \<ge> 0 \<and> char_value c < 32) word)"

definition IsStopWord :: "SearchServer \<Rightarrow> string \<Rightarrow> bool" where
  "IsStopWord s word = (word |\<in>| stop_words s)"

text \<open>The loop of \<open>SplitIntoWordsNoStop\<close> over the tokens; it throws at the first invalid one.\<close>

fun NoStop_loop :: "SearchServer \<Rightarrow> string list \<Rightarrow> exn + string list" where
  "NoStop_loop s [] = Inr []"
| "NoStop_loop s (word # rest) =
     (if \<not> IsValidWord word then Inl (invalid_argument (''Word '' @ word @ '' is invalid''))
      else (case NoStop_loop s rest of
              Inl e \<Rightarrow> Inl e
            | Inr words \<Rightarrow> Inr (if \<not> IsStopWord s word then word # words else words)))"

definition SplitIntoWordsNoStop :: "SearchServer \<Rightarrow> string \<Rightarrow> exn + string list" where
  "SplitIntoWordsNoStop s txt = NoStop_loop s (SplitIntoWords txt)"

text \<open>
  A value of the 32-bit \<open>int\<close> as the integer it is in two's complement: what an
  overflowing \<open>+=\<close> and the cast of a \<open>size_t\<close> leave on the usual targets (in C++ the
  overflow of a signed sum is undefined behaviour).
\<close>

definition wrap32 :: "int \<Rightarrow> int" where
  "wrap32 x = (x + 2 ^ 31) mod 2 ^ 32 - 2 ^ 31"

text \<open>
  \<open>ComputeAverageRating\<close>: the ratings are summed in an \<open>int\<close>, and the integer division
  truncates towards zero (\<open>sdiv\<close>).
\<close>

definition ComputeAverageRating :: "int list \<Rightarrow> int" where
  "ComputeAverageRating ratings =
     (if ratings = [] then 0
      else fold (\<lambda>r rating_sum. wrap32 (rating_sum + r)) ratings 0 sdiv wrap32 (int (length ratings)))"

subsection \<open>Arithmetic on doubles\<close>

text \<open>
  An IEEE 754 binary64 number has 53 significant bits, and an operation returns the
  representable number nearest to its exact result, the one with an even last bit when
  two are equally near. \<open>binade x\<close> is the \<open>e\<close> with \<open>2\<^sup>e \<le> |x| < 2\<^sup>e\<^sup>+\<^sup>1\<close>; the representable
  numbers of that range are the multiples of \<open>2\<^sup>e\<^sup>-\<^sup>5\<^sup>2\<close>. The range of the exponent is not
  modelled: the frequencies of the index are far from overflow and underflow.
\<close>

definition binade :: "real \<Rightarrow> int" where
  "binade x =
     (if 1 \<le> \<bar>x\<bar> then int (floorlog 2 (nat \<lfloor>\<bar>x\<bar>\<rfloor>)) - 1
      else - int (floorlog 2 (nat \<lceil>1 / \<bar>x\<bar>\<rceil> - 1)))"

definition round_half_even :: "real \<Rightarrow> int" where
  "round_half_even y =
     (let f = \<lfloor>y\<rfloor>; r = y - of_int f
      in if r < 1 / 2 then f else if 1 / 2 < r then f + 1 else if even f then f else f + 1)"

definition to_double :: "real \<Rightarrow> real" where
  "to_double x =
     (if x = 0 then 0
      else let ulp = 2 powi (binade x - 52) in of_int (round_half_even (x / ulp)) * ulp)"

definition double_add :: "real \<Rightarrow> real \<Rightarrow> real" where
  "double_add x y = to_double (x + y)"

definition double_div :: "real \<Rightarrow> real \<Rightarrow> real" where
  "double_div x y = to_double (x / y)"

subsection \<open>Adding a document\<close>

text \<open>\<open>m[k1][k2] += x\<close> on a map of maps: \<open>operator[]\<close> creates a missing entry, a new
  \<open>double\<close> being \<open>0.0\<close>.\<close>

definition add_freq :: "'a \<Rightarrow> 'b \<Rightarrow> real \<Rightarrow> ('a, ('b, real) fmap) fmap \<Rightarrow> ('a, ('b, real) fmap) fmap" where
  "add_freq k1 k2 x m =
     (let inner = (case fmlookup m k1 of None \<Rightarrow> fmempty | Some i \<Rightarrow> i);
          old = (case fmlookup inner k2 of None \<Rightarrow> 0 | Some v \<Rightarrow> v)
      in fmupd k1 (fmupd k2 (double_add old x) inner) m)"

text \<open>The body of the loop of \<open>AddDocument\<close>.\<close>

definition index_word :: "int \<Rightarrow> real \<Rightarrow> string \<Rightarrow> SearchServer \<Rightarrow> SearchServer" where
  "index_word document_id inv_word_count word s =
     s\<lparr>word_to_document_freqs := add_freq word document_id inv_word_count (word_to_document_freqs s),
       document_to_word_freqs := add_freq document_id word inv_word_count (document_to_word_freqs s)\<rparr>"

text \<open>
  \<open>AddDocument\<close> returns the exception or \<open>()\<close>, and the server as the call leaves it. The
  metadata is emplaced before the text is split, and the split may throw. In
  \<open>1.0 / words.size()\<close> the size is converted to \<open>double\<close> first. With no words the
  quotient is not used (it is \<open>inf\<close> in C++, \<open>0\<close> here).
\<close>

definition AddDocument ::
  "SearchServer \<Rightarrow> int \<Rightarrow> string \<Rightarrow> DocumentStatus \<Rightarrow> int list \<Rightarrow> (exn + unit) \<times> SearchServer" where
  "AddDocument s document_id document st ratings =
     (if document_id < 0 \<or> document_id |\<in>| fmdom (documents s)
      then (Inl (invalid_argument ''Invalid document_id''), s)
      else
        let s1 = s\<lparr>documents :=
                     fmupd document_id
                       \<lparr>rating = ComputeAverageRating ratings, status = st, doc_text = document\<rparr>
                       (documents s)\<rparr>
        in (case SplitIntoWordsNoStop s1 document of
              Inl e \<Rightarrow> (Inl e, s1)
            | Inr words \<Rightarrow>
                let inv_word_count = double_div 1 (to_double (real (length words)));
                    s2 = fold (index_word document_id inv_word_count) words s1
                in (Inr (), s2\<lparr>document_ids := finsert document_id (document_ids s2)\<rparr>)))"

definition GetDocumentCount :: "SearchServer \<Rightarrow> int" where
  "GetDocumentCount s = int (fcard (fmdom (documents s)))"

text \<open>\<open>begin()\<close> to \<open>end()\<close>: the ids of \<open>document_ids_\<close> in ascending order.\<close>

definition DocumentIds :: "SearchServer \<Rightarrow> int list" where
  "DocumentIds s = sorted_list_of_fset (document_ids s)"

definition GetWordFrequencies :: "SearchServer \<Rightarrow> int \<Rightarrow> (string, real) fmap" where
  "GetWordFrequencies s document_id =
     (case fmlookup (document_to_word_freqs s) document_id of
        None \<Rightarrow> fmempty
      | Some word_freqs \<Rightarrow> word_freqs)"

subsection \<open>Parsing a query\<close>

record QueryWord =
  data :: string
  is_minus :: bool
  is_stop :: bool

record Query =
  plus_words :: "string list"
  minus_words :: "string list"

definition ParseQueryWord :: "SearchServer \<Rightarrow> string \<Rightarrow> exn + QueryWord" where
  "ParseQueryWord s word =
     (if word = [] then Inl (invalid_argument ''Query word is empty'')
      else
        let minus = (hd word = CHR ''-'');
            word' = (if minus then tl word else word)
        in if word' = [] \<or> hd word' = CHR ''-'' \<or> \<not> IsValidWord word'
           then Inl (invalid_argument (''Query word '' @ word' @ '' is invalid''))
           else Inr \<lparr>data = word', is_minus = minus, is_stop = IsStopWord s word'\<rparr>)"

fun ParseQuery_loop :: "SearchServer \<Rightarrow> string list \<Rightarrow> Query \<Rightarrow> exn + Query" where
  "ParseQuery_loop s [] result = Inr result"
| "ParseQuery_loop s (word # rest) result =
     (case ParseQueryWord s word of
        Inl e \<Rightarrow> Inl e
      | Inr query_word \<Rightarrow>
          ParseQuery_loop s rest
            (if \<not> is_stop query_word
             then (if is_minus query_word
                   then result\<lparr>minus_words := minus_words result @ [data query_word]\<rparr>
                   else result\<lparr>plus_words := plus_words result @ [data query_word]\<rparr>)
             else result))"

text \<open>\<open>sort\<close> followed by \<open>erase(unique(...))\<close> is \<open>remdups_adj \<circ> sort\<close>.\<close>

definition ParseQuery :: "SearchServer \<Rightarrow> string \<Rightarrow> bool \<Rightarrow> exn + Query" where
  "ParseQuery s txt skip_sort =
     (case ParseQuery_loop s (SplitIntoWords txt) \<lparr>plus_words = [], minus_words = []\<rparr> of
        Inl e \<Rightarrow> Inl e
      | Inr result \<Rightarrow>
          Inr (if \<not> skip_sort
               then \<lparr>plus_words = remdups_adj (sort (plus_words result)),
                     minus_words = remdups_adj (sort (minus_words result))\<rparr>
               else result))"

subsection \<open>Matching a document\<close>

text \<open>
  Whether the word has a posting for the document: the two tests of the sequential loops
  (\<open>count(word) == 0\<close>, then \<open>at(word).count(document_id)\<close>) and the lambda
  \<open>word_checker\<close> of the parallel variant. The words of a query point into the query
  text, which exists during the call; the lookup compares them with the keys of
  \<open>word_to_document_freqs_\<close> by what they read.
\<close>

definition word_checker :: "SearchServer \<Rightarrow> int \<Rightarrow> string \<Rightarrow> bool" where
  "word_checker s document_id word =
     (case fmlookup (word_to_document_freqs s) word of
        None \<Rightarrow> False
      | Some freqs \<Rightarrow> document_id |\<in>| fmdom freqs)"

text \<open>The loop over the minus words; \<open>True\<close> when it returns from the function.\<close>

fun minus_loop :: "SearchServer \<Rightarrow> int \<Rightarrow> string list \<Rightarrow> bool" where
  "minus_loop s document_id [] = False"
| "minus_loop s document_id (word # rest) =
     (case fmlookup (word_to_document_freqs s) word of
        None \<Rightarrow> minus_loop s document_id rest
      | Some freqs \<Rightarrow>
          if document_id |\<in>| fmdom freqs then True else minus_loop s document_id rest)"

fun plus_loop :: "SearchServer \<Rightarrow> int \<Rightarrow> string list \<Rightarrow> string list \<Rightarrow> string list" where
  "plus_loop s document_id [] matched_words = matched_words"
| "plus_loop s document_id (word # rest) matched_words =
     (case fmlookup (word_to_document_freqs s) word of
        None \<Rightarrow> plus_loop s document_id rest matched_words
      | Some freqs \<Rightarrow>
          if document_id |\<in>| fmdom freqs
          then plus_loop s document_id rest (matched_words @ [word])
          else plus_loop s document_id rest matched_words)"

definition MatchDocument_seq ::
  "SearchServer \<Rightarrow> string \<Rightarrow> int \<Rightarrow> exn + (string list \<times> DocumentStatus)" where
  "MatchDocument_seq s raw_query document_id =
     (case ParseQuery s raw_query False of
        Inl e \<Rightarrow> Inl e
      | Inr query \<Rightarrow>
          (case fmlookup (documents s) document_id of
             None \<Rightarrow> Inl out_of_range
           | Some d \<Rightarrow>
               if minus_loop s document_id (minus_words query) then Inr ([], status d)
               else Inr (plus_loop s document_id (plus_words query) [], status d)))"

text \<open>
  The parallel variant. \<open>any_of\<close> and \<open>copy_if\<close> under \<open>execution::par\<close> return what the
  sequential algorithms return (\<open>copy_if\<close> keeps the relative order); the predicate only
  reads the index. The interleaving of the worker threads itself is not modelled.
\<close>

definition MatchDocument_par ::
  "SearchServer \<Rightarrow> string \<Rightarrow> int \<Rightarrow> exn + (string list \<times> DocumentStatus)" where
  "MatchDocument_par s raw_query document_id =
     (case ParseQuery s raw_query True of
        Inl e \<Rightarrow> Inl e
      | Inr query \<Rightarrow>
          (case fmlookup (documents s) document_id of
             None \<Rightarrow> Inl out_of_range
           | Some d \<Rightarrow>
               if list_ex (word_checker s document_id) (minus_words query) then Inr ([], status d)
               else Inr (remdups_adj (sort (filter (word_checker s document_id) (plus_words query))),
                         status d)))"

definition MatchDocument ::
  "SearchServer \<Rightarrow> string \<Rightarrow> int \<Rightarrow> exn + (string list \<times> DocumentStatus)" where
  "MatchDocument = MatchDocument_seq"

subsection \<open>Removing a document\<close>

text \<open>
  \<open>word_to_document_freqs_.at(word).erase(document_id)\<close> for each word of a list, in the
  order of the list. The words are keys of \<open>document_to_word_freqs_[document_id]\<close>, views
  into the text of the document; \<open>text_exists\<close> tells whether \<open>documents_\<close> still holds
  that text. Looking a word up compares it with keys of the map. Two views are compared
  on as many characters as the shorter one has, and a search for a word with characters,
  in a map that has a key with characters, compares the word with such a key (its
  neighbours in the order are on the search path): once the text is destroyed that
  reads freed memory. A comparison with an empty view reads nothing. Otherwise \<open>at\<close>
  throws for a word that is not a key, and the map stays as the loop left it.
\<close>

fun erase_loop ::
  "bool \<Rightarrow> int \<Rightarrow> string list \<Rightarrow> (string, (int, real) fmap) fmap \<Rightarrow>
     (exn + unit) \<times> (string, (int, real) fmap) fmap" where
  "erase_loop text_exists document_id [] m = (Inr (), m)"
| "erase_loop text_exists document_id (word # rest) m =
     (if \<not> text_exists \<and> word \<noteq> [] \<and> \<not> fmdom m |\<subseteq>| {|[]|} then (Inl use_after_free, m)
      else (case fmlookup m word of
              None \<Rightarrow> (Inl out_of_range, m)
            | Some freqs \<Rightarrow>
                erase_loop text_exists document_id rest (fmupd word (fmdrop document_id freqs) m)))"

text \<open>
  \<open>RemoveDocument\<close> erases the entry of \<open>documents_\<close>, and with it the text, before the
  loop reads the words.
\<close>

definition RemoveDocument_seq :: "SearchServer \<Rightarrow> int \<Rightarrow> (exn + unit) \<times> SearchServer" where
  "RemoveDocument_seq s document_id =
     (case fmlookup (document_to_word_freqs s) document_id of
        None \<Rightarrow> (Inr (), s)
      | Some word_freqs \<Rightarrow>
          let s1 = s\<lparr>document_ids := document_ids s |-| {|document_id|},
                     documents := fmdrop document_id (documents s)\<rparr>
          in (case erase_loop (document_id |\<in>| fmdom (documents s1)) document_id
                     (sorted_list_of_fset (fmdom word_freqs)) (word_to_document_freqs s1) of
                (Inl e, m) \<Rightarrow> (Inl e, s1\<lparr>word_to_document_freqs := m\<rparr>)
              | (Inr _, m) \<Rightarrow>
                  (Inr (), s1\<lparr>word_to_document_freqs := m,
                              document_to_word_freqs :=
                                fmdrop document_id (document_to_word_freqs s1)\<rparr>)))"

text \<open>
  The parallel variant copies the keys into the vector \<open>words\<close> (copying a view reads no
  text) and erases under \<open>for_each(execution::par, ...)\<close>, which visits the elements in
  no specified order: \<open>visit\<close> is the order the workers happen to take. An exception
  escaping an element access function ends the program (\<open>std::terminate\<close>).
\<close>

definition RemoveDocument_par ::
  "(string list \<Rightarrow> string list) \<Rightarrow> SearchServer \<Rightarrow> int \<Rightarrow> (exn + unit) \<times> SearchServer" where
  "RemoveDocument_par visit s document_id =
     (case fmlookup (document_to_word_freqs s) document_id of
        None \<Rightarrow> (Inr (), s)
      | Some word_freqs \<Rightarrow>
          let s1 = s\<lparr>document_ids := document_ids s |-| {|document_id|},
                     documents := fmdrop document_id (documents s)\<rparr>;
              words = sorted_list_of_fset (fmdom word_freqs)
          in (case erase_loop (document_id |\<in>| fmdom (documents s1)) document_id
                     (visit words) (word_to_document_freqs s1) of
                (Inl e, m) \<Rightarrow>
                  (Inl (if e = use_after_free then use_after_free else terminate),
                   s1\<lparr>word_to_document_freqs := m\<rparr>)
              | (Inr _, m) \<Rightarrow>
                  (Inr (), s1\<lparr>word_to_document_freqs := m,
                              document_to_word_freqs :=
                                fmdrop document_id (document_to_word_freqs s1)\<rparr>)))"

definition RemoveDocument :: "SearchServer \<Rightarrow> int \<Rightarrow> (exn + unit) \<times> SearchServer" where
  "RemoveDocument = RemoveDocument_seq"

section \<open>Duplicate removal (test\_example\_functions.cpp)\<close>

text \<open>The first loop of \<open>RemoveDuplicates\<close>: the term sets seen so far and the duplicates found.\<close>

fun find_duplicates ::
  "SearchServer \<Rightarrow> int list \<Rightarrow> string fset fset \<Rightarrow> int list \<Rightarrow> int list" where
  "find_duplicates s [] existing_docs found_duplicates = found_duplicates"
| "find_duplicates s (document_id # rest) existing_docs found_duplicates =
     (let words = fmdom (GetWordFrequencies s document_id)
      in if words |\<in>| existing_docs
         then find_duplicates s rest existing_docs (found_duplicates @ [document_id])
         else find_duplicates s rest (finsert words existing_docs) found_duplicates)"

text \<open>The second loop; an exception of \<open>RemoveDocument\<close> is not caught.\<close>

fun remove_all :: "int list \<Rightarrow> SearchServer \<Rightarrow> (exn + unit) \<times> SearchServer" where
  "remove_all [] s = (Inr (), s)"
| "remove_all (document_id # rest) s =
     (case RemoveDocument s document_id of
        (Inl e, s') \<Rightarrow> (Inl e, s')
      | (Inr _, s') \<Rightarrow> remove_all rest s')"

definition RemoveDuplicates :: "SearchServer \<Rightarrow> (exn + unit) \<times> SearchServer" where
  "RemoveDuplicates s = remove_all (find_duplicates s (DocumentIds s) {||} []) s"

section \<open>Index states\<close>

text \<open>
  The states of a server are those its public operations produce from a new server. A
  caller that catches the exception of \<open>AddDocument\<close> (as the wrapper \<open>AddDocument\<close>
  of \<open>test_example_functions.cpp\<close> does) goes on with the server as the failed call left it.
  A call that reads a destroyed text has no defined state after it: such a call is no
  step of a run, and \<open>exec\<close> leaves it out. So \<open>run sw cmds\<close>, over all \<open>cmds\<close>, are the
  states that the calls with defined behaviour reach.
\<close>

datatype command = Add int string DocumentStatus "int list" | Remove int

fun exec :: "command \<Rightarrow> SearchServer \<Rightarrow> SearchServer" where
  "exec (Add document_id document st ratings) s = snd (AddDocument s document_id document st ratings)"
| "exec (Remove document_id) s =
     (case RemoveDocument s document_id of
        (Inl e, s') \<Rightarrow> if e = use_after_free then s else s'
      | (Inr _, s') \<Rightarrow> s')"

definition run :: "string fset \<Rightarrow> command list \<Rightarrow> SearchServer" where
  "run sw cmds = fold exec cmds (new_server sw)"

section \<open>Notions that the properties are stated with\<close>

text \<open>The words joined again, a single space between neighbours.\<close>

fun join_words :: "string list \<Rightarrow> string" where
  "join_words [] = []"
| "join_words [w] = w"
| "join_words (w # v # ws) = w @ CHR '' '' # join_words (v # ws)"

text \<open>The sum of the frequencies of a map such as \<open>GetWordFrequencies\<close> returns.\<close>

definition freq_sum :: "(string, real) fmap \<Rightarrow> real" where
  "freq_sum word_freqs = (\<Sum>word \<in> fmdom' word_freqs. the (fmlookup word_freqs word))"

text \<open>
  The frequency of a word in a document as the reverse map (word to document) holds it,
  and as the forward map (document to word) holds it.
\<close>

definition rev_posting :: "SearchServer \<Rightarrow> string \<Rightarrow> int \<Rightarrow> real option" where
  "rev_posting s word document_id =
     (case fmlookup (word_to_document_freqs s) word of
        None \<Rightarrow> None
      | Some freqs \<Rightarrow> fmlookup freqs document_id)"

definition fwd_posting :: "SearchServer \<Rightarrow> int \<Rightarrow> string \<Rightarrow> real option" where
  "fwd_posting s document_id word =
     (case fmlookup (document_to_word_freqs s) document_id of
        None \<Rightarrow> None
      | Some word_freqs \<Rightarrow> fmlookup word_freqs word)"

text \<open>
  What \<open>k\<close> additions of \<open>x\<close> to a new \<open>double\<close> leave, the unit roundoff of binary64, and
  the bounds that rounding keeps the frequencies of a document of \<open>n\<close> words within.
\<close>

definition double_sum :: "nat \<Rightarrow> real \<Rightarrow> real" where
  "double_sum k x = ((\<lambda>a. double_add a x) ^^ k) 0"

definition unit_roundoff :: real where
  "unit_roundoff = 1 / 2 ^ 53"

definition freq_lower :: "nat \<Rightarrow> real" where
  "freq_lower n = (1 - unit_roundoff) ^ (n + 1) / (1 + unit_roundoff)"

definition freq_upper :: "nat \<Rightarrow> real" where
  "freq_upper n = (1 + unit_roundoff) ^ (n + 1) / (1 - unit_roundoff)"

text \<open>
  The invariant of the index: every document with postings, and every id of
  \<open>document_ids_\<close>, has metadata; the two posting maps hold the same frequencies; the
  words of a document with postings are the words of its text that are no stop words,
  there is at least one, and the frequency of a word is what one addition of
  \<open>1.0 / words.size()\<close> for each of its occurrences leaves.
\<close>

definition index_inv :: "SearchServer \<Rightarrow> bool" where
  "index_inv s \<longleftrightarrow>
     fmdom (document_to_word_freqs s) |\<subseteq>| fmdom (documents s) \<and>
     document_ids s |\<subseteq>| fmdom (documents s) \<and>
     (\<forall>word document_id. rev_posting s word document_id = fwd_posting s document_id word) \<and>
     (\<forall>document_id word_freqs.
        fmlookup (document_to_word_freqs s) document_id = Some word_freqs \<longrightarrow>
          (\<exists>d words.
             fmlookup (documents s) document_id = Some d \<and>
             SplitIntoWordsNoStop s (doc_text d) = Inr words \<and> words \<noteq> [] \<and>
             (\<forall>word. fmlookup word_freqs word =
                (if word \<in> set words
                 then Some (double_sum (count_list words word)
                              (double_div 1 (to_double (real (length words)))))
                 else None))))"

text \<open>The server after the postings, the metadata and the id of a document are erased.\<close>

definition removed :: "SearchServer \<Rightarrow> int \<Rightarrow> (string, real) fmap \<Rightarrow> SearchServer" where
  "removed s i wfs =
     s\<lparr>document_ids := document_ids s |-| {|i|},
       documents := fmdrop i (documents s),
       word_to_document_freqs :=
         fmmap_keys (\<lambda>w p. if w |\<in>| fmdom wfs then fmdrop i p else p) (word_to_document_freqs s),
       document_to_word_freqs := fmdrop i (document_to_word_freqs s)\<rparr>"

section \<open>The tokenizer\<close>

lemma find_char_None: "find_char c s = None \<longleftrightarrow> c \<notin> set s"
  by (induction s) (auto split: option.splits)

lemma find_char_Some:
  "find_char c s = Some i \<Longrightarrow> c \<notin> set (take i s) \<and> s = take i s @ c # drop (Suc i) s"
  by (induction s arbitrary: i) (auto split: if_splits option.splits)

lemma SplitIntoWords_not_Nil: "SplitIntoWords str \<noteq> []"
  by (subst SplitIntoWords.simps) (simp split: option.splits)

lemma join_words_Cons: "ws \<noteq> [] \<Longrightarrow> join_words (w # ws) = w @ CHR '' '' # join_words ws"
  by (cases ws) simp_all

lemma SplitIntoWords_no_space: "CHR '' '' \<notin> set (concat (SplitIntoWords str))"
proof (induction str rule: SplitIntoWords.induct)
  case (1 str)
  show ?case
  proof (cases "find_char (CHR '' '') str")
    case None
    then have "CHR '' '' \<notin> set str"
      by (simp add: find_char_None)
    then show ?thesis
      by (subst SplitIntoWords.simps) (simp add: None)
  next
    case (Some space)
    with 1 [OF Some] find_char_Some [OF Some] show ?thesis
      by (subst SplitIntoWords.simps) (simp add: Some)
  qed
qed

lemma SplitIntoWords_join: "join_words (SplitIntoWords str) = str"
proof (induction str rule: SplitIntoWords.induct)
  case (1 str)
  show ?case
  proof (cases "find_char (CHR '' '') str")
    case None
    then show ?thesis
      by (subst SplitIntoWords.simps) (simp add: None)
  next
    case (Some space)
    have "join_words (SplitIntoWords str) =
          take space str @ CHR '' '' # join_words (SplitIntoWords (drop (space + 1) str))"
      by (subst SplitIntoWords.simps) (simp add: Some join_words_Cons SplitIntoWords_not_Nil)
    also have "\<dots> = take space str @ CHR '' '' # drop (Suc space) str"
      using 1 [OF Some] by simp
    also have "\<dots> = str"
      using find_char_Some [OF Some] by simp
    finally show ?thesis .
  qed
qed

lemma SplitIntoWords_length: "length (SplitIntoWords str) = Suc (count_list str (CHR '' ''))"
proof (induction str rule: SplitIntoWords.induct)
  case (1 str)
  show ?case
  proof (cases "find_char (CHR '' '') str")
    case None
    then have "CHR '' '' \<notin> set str"
      by (simp add: find_char_None)
    then show ?thesis
      by (subst SplitIntoWords.simps) (simp add: None)
  next
    case (Some space)
    from find_char_Some [OF Some]
    have split: "str = take space str @ CHR '' '' # drop (Suc space) str"
      and nosp: "CHR '' '' \<notin> set (take space str)" by simp_all
    have "count_list str (CHR '' '') =
          count_list (take space str @ CHR '' '' # drop (Suc space) str) (CHR '' '')"
      using split by simp
    also have "\<dots> = Suc (count_list (drop (Suc space) str) (CHR '' ''))"
      using nosp by (simp add: count_list_0_iff)
    finally have cnt:
      "count_list str (CHR '' '') = Suc (count_list (drop (Suc space) str) (CHR '' ''))" .
    show ?thesis
      using 1 [OF Some] cnt by (subst SplitIntoWords.simps) (simp add: Some)
  qed
qed

text \<open>
  C5 (as the code has it). The tokenizer drops nothing: the empty text gives the one
  empty token, and two neighbouring spaces give an empty token between them.
\<close>

theorem SplitIntoWords_keeps_empty_tokens:
  "SplitIntoWords '''' \<noteq> [] \<and> '''' \<in> set (SplitIntoWords ''a  b'')"
  by (simp add: SplitIntoWords.simps)

text \<open>
  C5 (amended). For every text the tokens are exactly the segments between single
  spaces, in order, the empty ones included: no token contains a space, joining the
  tokens with single spaces gives the text back, and there is one token more than there
  are spaces.
\<close>

theorem SplitIntoWords_segments:
  "CHR '' '' \<notin> set (concat (SplitIntoWords str)) \<and>
   join_words (SplitIntoWords str) = str \<and>
   length (SplitIntoWords str) = Suc (count_list str (CHR '' ''))"
  by (simp only: SplitIntoWords_no_space SplitIntoWords_join SplitIntoWords_length simp_thms)

section \<open>Rejected insertions\<close>

text \<open>
  C3. With a negative id, or an id that already has metadata, \<open>AddDocument\<close> throws
  \<open>invalid_argument("Invalid document_id")\<close> and the server is as it was.
\<close>

theorem AddDocument_invalid_id:
  "document_id < 0 \<or> document_id |\<in>| fmdom (documents s) \<Longrightarrow>
   AddDocument s document_id document st ratings =
     (Inl (invalid_argument ''Invalid document_id''), s)"
  by (simp add: AddDocument_def)

theorem AddDocument_invalid_id_witness:
  "AddDocument (new_server {||}) (- 1) ''cat'' ACTIVE [] =
     (Inl (invalid_argument ''Invalid document_id''), new_server {||}) \<and>
   AddDocument (run {||} [Add 1 ''cat'' ACTIVE []]) 1 ''dog'' ACTIVE [] =
     (Inl (invalid_argument ''Invalid document_id''), run {||} [Add 1 ''cat'' ACTIVE []])"
proof
  show "AddDocument (new_server {||}) (- 1) ''cat'' ACTIVE [] =
     (Inl (invalid_argument ''Invalid document_id''), new_server {||})"
    using AddDocument_invalid_id [of "- 1" "new_server {||}" "''cat''" ACTIVE "[]"] by simp
  have "1 |\<in>| fmdom (documents (run {||} [Add 1 ''cat'' ACTIVE []]))"
    by code_simp
  then show "AddDocument (run {||} [Add 1 ''cat'' ACTIVE []]) 1 ''dog'' ACTIVE [] =
     (Inl (invalid_argument ''Invalid document_id''), run {||} [Add 1 ''cat'' ACTIVE []])"
    using AddDocument_invalid_id [of 1 "run {||} [Add 1 ''cat'' ACTIVE []]" "''dog''" ACTIVE "[]"]
    by simp
qed

text \<open>
  C1 (as the code has it). The text \<open>a\001\<close> has a token with a control character.
  \<open>AddDocument\<close> throws, but the metadata emplaced before the split stays:
  \<open>GetDocumentCount\<close> goes from 0 to 1, while \<open>document_ids_\<close> stays empty.
\<close>

theorem AddDocument_invalid_word_keeps_metadata:
  "AddDocument (new_server {||}) 1 [CHR ''a'', CHR 0x01] ACTIVE [] =
     (Inl (invalid_argument (''Word '' @ [CHR ''a'', CHR 0x01] @ '' is invalid'')),
      (new_server {||})\<lparr>documents :=
         fmupd 1 \<lparr>rating = 0, status = ACTIVE, doc_text = [CHR ''a'', CHR 0x01]\<rparr> fmempty\<rparr>) \<and>
   GetDocumentCount (new_server {||}) = 0 \<and>
   GetDocumentCount (snd (AddDocument (new_server {||}) 1 [CHR ''a'', CHR 0x01] ACTIVE [])) = 1 \<and>
   DocumentIds (snd (AddDocument (new_server {||}) 1 [CHR ''a'', CHR 0x01] ACTIVE [])) = []"
  by code_simp

section \<open>The invariant of the index\<close>

subsection \<open>The loop of AddDocument\<close>

lemma index_word_fields [simp]:
  "stop_words (index_word i x w s) = stop_words s"
  "documents (index_word i x w s) = documents s"
  "document_ids (index_word i x w s) = document_ids s"
  by (simp_all add: index_word_def)

lemma fold_index_word_fields [simp]:
  "stop_words (fold (index_word i x) ws s) = stop_words s"
  "documents (fold (index_word i x) ws s) = documents s"
  "document_ids (fold (index_word i x) ws s) = document_ids s"
  by (induction ws arbitrary: s) simp_all

lemma rev_posting_index_word:
  "rev_posting (index_word i x w s) w' i' =
     (if w' = w \<and> i' = i
      then Some (double_add (case rev_posting s w i of None \<Rightarrow> 0 | Some v \<Rightarrow> v) x)
      else rev_posting s w' i')"
  by (auto simp: rev_posting_def index_word_def add_freq_def Let_def split: option.splits)

lemma fwd_posting_index_word:
  "fwd_posting (index_word i x w s) i' w' =
     (if w' = w \<and> i' = i
      then Some (double_add (case fwd_posting s i w of None \<Rightarrow> 0 | Some v \<Rightarrow> v) x)
      else fwd_posting s i' w')"
  by (auto simp: fwd_posting_def index_word_def add_freq_def Let_def split: option.splits)

lemma iterate_double_add_swap:
  "((\<lambda>a. double_add a x) ^^ n) (double_add b x) = double_add (((\<lambda>a. double_add a x) ^^ n) b) x"
  by (induction n) simp_all

lemma fwd_posting_fold:
  "fwd_posting (fold (index_word i x) ws s) i' w' =
     (if i' = i \<and> w' \<in> set ws
      then Some (((\<lambda>a. double_add a x) ^^ count_list ws w')
                   (case fwd_posting s i w' of None \<Rightarrow> 0 | Some v \<Rightarrow> v))
      else fwd_posting s i' w')"
proof (induction ws arbitrary: s)
  case Nil
  show ?case by simp
next
  case (Cons w ws)
  show ?case
    by (auto simp: Cons.IH fwd_posting_index_word iterate_double_add_swap split: option.splits)
qed

lemma fwd_posting_fold_new:
  assumes "\<And>w. fwd_posting s i w = None"
  shows "fwd_posting (fold (index_word i x) ws s) i w =
     (if w \<in> set ws then Some (double_sum (count_list ws w) x) else None)"
  by (simp add: fwd_posting_fold assms double_sum_def)

lemma mirror_fold:
  "(\<forall>w' i'. rev_posting s w' i' = fwd_posting s i' w') \<Longrightarrow>
   rev_posting (fold (index_word i x) ws s) w' i' = fwd_posting (fold (index_word i x) ws s) i' w'"
proof (induction ws arbitrary: s w' i')
  case Nil
  then show ?case by simp
next
  case (Cons w ws)
  have "\<forall>w' i'. rev_posting (index_word i x w s) w' i' = fwd_posting (index_word i x w s) i' w'"
    using Cons.prems by (simp add: rev_posting_index_word fwd_posting_index_word)
  from Cons.IH [OF this] show ?case by simp
qed

lemma d2w_index_word_other:
  "i' \<noteq> i \<Longrightarrow> fmlookup (document_to_word_freqs (index_word i x w s)) i' =
     fmlookup (document_to_word_freqs s) i'"
  by (simp add: index_word_def add_freq_def Let_def)

lemma d2w_fold_other:
  "i' \<noteq> i \<Longrightarrow> fmlookup (document_to_word_freqs (fold (index_word i x) ws s)) i' =
     fmlookup (document_to_word_freqs s) i'"
  by (induction ws arbitrary: s) (simp_all add: d2w_index_word_other)

lemma d2w_fold_Nil_or_Some:
  "ws \<noteq> [] \<Longrightarrow> \<exists>wfs. fmlookup (document_to_word_freqs (fold (index_word i x) ws s)) i = Some wfs"
proof (induction ws arbitrary: s rule: rev_induct)
  case Nil
  then show ?case by simp
next
  case (snoc w ws)
  show ?case by (simp add: index_word_def add_freq_def Let_def)
qed

lemma fmlookup_d2w_fwd:
  "fmlookup (document_to_word_freqs s) i = Some wfs \<Longrightarrow> fmlookup wfs w = fwd_posting s i w"
  by (simp add: fwd_posting_def)

subsection \<open>AddDocument keeps the invariant\<close>

lemma posting_documents_update [simp]:
  "rev_posting (s\<lparr>documents := d\<rparr>) = rev_posting s"
  "fwd_posting (s\<lparr>documents := d\<rparr>) = fwd_posting s"
  "rev_posting (s\<lparr>document_ids := ids\<rparr>) = rev_posting s"
  "fwd_posting (s\<lparr>document_ids := ids\<rparr>) = fwd_posting s"
  by (simp_all add: rev_posting_def fwd_posting_def fun_eq_iff)

lemma NoStop_loop_cong:
  "stop_words s = stop_words s' \<Longrightarrow> NoStop_loop s ws = NoStop_loop s' ws"
  by (induction ws) (auto simp: IsStopWord_def split: sum.splits)

lemma SplitIntoWordsNoStop_cong:
  "stop_words s = stop_words s' \<Longrightarrow> SplitIntoWordsNoStop s txt = SplitIntoWordsNoStop s' txt"
  unfolding SplitIntoWordsNoStop_def by (rule NoStop_loop_cong)

lemma SplitIntoWordsNoStop_documents [simp]:
  "SplitIntoWordsNoStop (s\<lparr>documents := d\<rparr>) txt = SplitIntoWordsNoStop s txt"
  by (rule SplitIntoWordsNoStop_cong) simp

lemma index_inv_fold:
  assumes inv: "index_inv s"
    and fresh: "i |\<notin>| fmdom (documents s)"
    and split: "SplitIntoWordsNoStop s (doc_text d) = Inr ws"
  shows "index_inv
           ((fold (index_word i (double_div 1 (to_double (real (length ws))))) ws
               (s\<lparr>documents := fmupd i d (documents s)\<rparr>))
              \<lparr>document_ids := finsert i (document_ids s)\<rparr>)"
    (is "index_inv ?s3")
proof -
  let ?x = "double_div 1 (to_double (real (length ws)))"
  let ?s1 = "s\<lparr>documents := fmupd i d (documents s)\<rparr>"
  let ?s2 = "fold (index_word i ?x) ws ?s1"
  have none: "fmlookup (document_to_word_freqs s) i = None"
    using inv fresh unfolding index_inv_def by (meson fmdom_notD fsubsetD)
  have other: "fmlookup (document_to_word_freqs ?s2) i' = fmlookup (document_to_word_freqs s) i'"
    if "i' \<noteq> i" for i'
    using that by (simp add: d2w_fold_other)
  have sw: "SplitIntoWordsNoStop ?s3 t = SplitIntoWordsNoStop s t" for t
    by (rule SplitIntoWordsNoStop_cong) simp
  have dom: "fmdom (document_to_word_freqs ?s3) |\<subseteq>| fmdom (documents ?s3)"
  proof
    fix i' assume "i' |\<in>| fmdom (document_to_word_freqs ?s3)"
    then have in2: "i' |\<in>| fmdom (document_to_word_freqs ?s2)" by simp
    show "i' |\<in>| fmdom (documents ?s3)"
    proof (cases "i' = i")
      case True
      then show ?thesis by simp
    next
      case False
      with in2 other [OF False] have "i' |\<in>| fmdom (document_to_word_freqs s)"
        by (simp add: fmlookup_dom_iff)
      with inv show ?thesis unfolding index_inv_def by auto
    qed
  qed
  have ids: "document_ids ?s3 |\<subseteq>| fmdom (documents ?s3)"
    using inv unfolding index_inv_def by auto
  have mirror: "rev_posting ?s3 w' i' = fwd_posting ?s3 i' w'" for w' i'
  proof -
    have "\<forall>w' i'. rev_posting ?s1 w' i' = fwd_posting ?s1 i' w'"
      using inv unfolding index_inv_def by simp
    from mirror_fold [OF this] show ?thesis by simp
  qed
  have link: "\<exists>d' words.
             fmlookup (documents ?s3) i' = Some d' \<and>
             SplitIntoWordsNoStop ?s3 (doc_text d') = Inr words \<and> words \<noteq> [] \<and>
             (\<forall>word. fmlookup wfs word =
                (if word \<in> set words
                 then Some (double_sum (count_list words word)
                              (double_div 1 (to_double (real (length words)))))
                 else None))"
    if look: "fmlookup (document_to_word_freqs ?s3) i' = Some wfs" for i' wfs
  proof (cases "i' = i")
    case False
    with look other [OF False] have "fmlookup (document_to_word_freqs s) i' = Some wfs"
      by simp
    with inv obtain d' words where
      "fmlookup (documents s) i' = Some d'"
      "SplitIntoWordsNoStop s (doc_text d') = Inr words" "words \<noteq> []"
      "\<forall>word. fmlookup wfs word =
                (if word \<in> set words
                 then Some (double_sum (count_list words word)
                              (double_div 1 (to_double (real (length words)))))
                 else None)"
      unfolding index_inv_def by blast
    with False show ?thesis
      by (intro exI [of _ d'] exI [of _ words]) (simp add: sw)
  next
    case True
    with look have look2: "fmlookup (document_to_word_freqs ?s2) i = Some wfs" by simp
    have ne: "ws \<noteq> []"
    proof
      assume "ws = []"
      with look2 none show False by simp
    qed
    have "fwd_posting ?s1 i w = None" for w
      using none by (simp add: fwd_posting_def)
    then have val: "fmlookup wfs w =
        (if w \<in> set ws then Some (double_sum (count_list ws w) ?x) else None)" for w
      using fmlookup_d2w_fwd [OF look2, of w] by (simp add: fwd_posting_fold_new)
    show ?thesis
      using True ne val split
      by (intro exI [of _ d] exI [of _ ws]) (simp add: sw)
  qed
  show ?thesis
    unfolding index_inv_def using dom ids mirror link by blast
qed


lemma index_inv_documents_upd:
  assumes "index_inv s" "i |\<notin>| fmdom (documents s)"
  shows "index_inv (s\<lparr>documents := fmupd i d (documents s)\<rparr>)"
proof -
  let ?s1 = "s\<lparr>documents := fmupd i d (documents s)\<rparr>"
  have dom: "fmdom (document_to_word_freqs ?s1) |\<subseteq>| fmdom (documents ?s1)"
    and ids: "document_ids ?s1 |\<subseteq>| fmdom (documents ?s1)"
    using assms(1) unfolding index_inv_def by auto
  have mirror: "rev_posting ?s1 w i' = fwd_posting ?s1 i' w" for w i'
    using assms(1) unfolding index_inv_def by simp
  have link: "\<exists>d' words.
             fmlookup (documents ?s1) i' = Some d' \<and>
             SplitIntoWordsNoStop ?s1 (doc_text d') = Inr words \<and> words \<noteq> [] \<and>
             (\<forall>word. fmlookup fs word =
                (if word \<in> set words
                 then Some (double_sum (count_list words word)
                              (double_div 1 (to_double (real (length words)))))
                 else None))"
    if "fmlookup (document_to_word_freqs ?s1) i' = Some fs" for i' fs
  proof -
    from that have look: "fmlookup (document_to_word_freqs s) i' = Some fs" by simp
    with assms(1) obtain d' words where dw:
      "fmlookup (documents s) i' = Some d'"
      "SplitIntoWordsNoStop s (doc_text d') = Inr words" "words \<noteq> []"
      "\<forall>word. fmlookup fs word =
                (if word \<in> set words
                 then Some (double_sum (count_list words word)
                              (double_div 1 (to_double (real (length words)))))
                 else None)"
      unfolding index_inv_def by blast
    from dw(1) assms(2) have "i' \<noteq> i" by (auto simp: fmlookup_dom_iff)
    with dw show ?thesis
      by (intro exI [of _ d'] exI [of _ words]) simp
  qed
  show ?thesis
    unfolding index_inv_def using dom ids mirror link by blast
qed

lemma AddDocument_ok:
  assumes "0 \<le> i" "i |\<notin>| fmdom (documents s)" "SplitIntoWordsNoStop s txt = Inr ws"
  shows "AddDocument s i txt st rs =
    (Inr (), (fold (index_word i (double_div 1 (to_double (real (length ws))))) ws
       (s\<lparr>documents := fmupd i \<lparr>rating = ComputeAverageRating rs, status = st, doc_text = txt\<rparr> (documents s)\<rparr>))
       \<lparr>document_ids := finsert i (document_ids s)\<rparr>)"
  using assms by (simp add: AddDocument_def Let_def)

lemma AddDocument_throws:
  assumes "0 \<le> i" "i |\<notin>| fmdom (documents s)" "SplitIntoWordsNoStop s txt = Inl e"
  shows "AddDocument s i txt st rs =
    (Inl e, s\<lparr>documents := fmupd i \<lparr>rating = ComputeAverageRating rs, status = st, doc_text = txt\<rparr> (documents s)\<rparr>)"
  using assms by (simp add: AddDocument_def Let_def)

lemma index_inv_AddDocument:
  assumes "index_inv s"
  shows "index_inv (snd (AddDocument s i txt st rs))"
proof (cases "i < 0 \<or> i |\<in>| fmdom (documents s)")
  case True
  then show ?thesis using assms by (simp add: AddDocument_def)
next
  case False
  then have ok: "0 \<le> i" "i |\<notin>| fmdom (documents s)" by auto
  show ?thesis
  proof (cases "SplitIntoWordsNoStop s txt")
    case (Inl e)
    show ?thesis
      by (simp add: AddDocument_throws [OF ok Inl] index_inv_documents_upd assms ok(2))
  next
    case (Inr ws)
    have "SplitIntoWordsNoStop s
            (doc_text \<lparr>rating = ComputeAverageRating rs, status = st, doc_text = txt\<rparr>) = Inr ws"
      using Inr by simp
    from index_inv_fold [OF assms ok(2) this] show ?thesis
      by (simp add: AddDocument_ok [OF ok Inr])
  qed
qed

subsection \<open>RemoveDocument keeps the invariant\<close>

lemma fmmap_keys_ident: "fmmap_keys (\<lambda>w p. p) m = m"
  by (rule fmap_ext) (simp add: option.map_ident)

lemma erase_loop_empty_words:
  "set ws \<subseteq> {[]} \<Longrightarrow> set ws \<subseteq> fmdom' m \<Longrightarrow>
   erase_loop b i ws m = (Inr (), fmmap_keys (\<lambda>w p. if w \<in> set ws then fmdrop i p else p) m)"
proof (induction ws arbitrary: m)
  case Nil
  show ?case by (simp add: fmmap_keys_ident)
next
  case (Cons w ws)
  from Cons.prems have w: "w = []" by simp
  from Cons.prems obtain p where p: "fmlookup m w = Some p"
    by (auto simp: fmlookup_dom'_iff)
  then have p': "fmlookup m [] = Some p" by (simp add: w)
  let ?m1 = "fmupd w (fmdrop i p) m"
  have "set ws \<subseteq> {[]}" "set ws \<subseteq> fmdom' ?m1"
    using Cons.prems by auto
  from Cons.IH [OF this]
  have "erase_loop b i (w # ws) m =
        (Inr (), fmmap_keys (\<lambda>w p. if w \<in> set ws then fmdrop i p else p) ?m1)"
    by (simp add: p' w)
  moreover have "fmmap_keys (\<lambda>w p. if w \<in> set ws then fmdrop i p else p) ?m1 =
      fmmap_keys (\<lambda>w' p. if w' \<in> set (w # ws) then fmdrop i p else p) m"
    by (rule fmap_ext) (auto simp: p)
  ultimately show ?case by simp
qed

lemma erase_loop_freed_words:
  "set ws \<subseteq> fmdom' m \<Longrightarrow> \<not> set ws \<subseteq> {[]} \<Longrightarrow> fst (erase_loop False i ws m) = Inl use_after_free"
proof (induction ws arbitrary: m)
  case Nil
  then show ?case by simp
next
  case (Cons w ws)
  show ?case
  proof (cases "w = []")
    case False
    have "w |\<in>| fmdom m"
      using Cons.prems(1) by (simp add: fmdom'_alt_def)
    with False have "\<not> fmdom m |\<subseteq>| {|[]|}" by auto
    with False show ?thesis by simp
  next
    case True
    from Cons.prems obtain p where "fmlookup m w = Some p"
      by (auto simp: fmlookup_dom'_iff)
    then have p: "fmlookup m [] = Some p" by (simp add: True)
    let ?m1 = "fmupd w (fmdrop i p) m"
    have "set ws \<subseteq> fmdom' ?m1" "\<not> set ws \<subseteq> {[]}"
      using Cons.prems True by auto
    from Cons.IH [OF this] show ?thesis
      by (simp add: p True)
  qed
qed

lemma mirror_words_indexed:
  assumes "\<forall>w i. rev_posting s w i = fwd_posting s i w"
    and "fmlookup (document_to_word_freqs s) i = Some wfs"
  shows "fset (fmdom wfs) \<subseteq> fmdom' (word_to_document_freqs s)"
proof
  fix w assume "w \<in> fset (fmdom wfs)"
  then obtain f where "fmlookup wfs w = Some f"
    by (auto simp: fmlookup_dom_iff)
  then have "fwd_posting s i w = Some f"
    using assms(2) by (simp add: fwd_posting_def)
  with assms(1) have "rev_posting s w i = Some f" by simp
  then show "w \<in> fmdom' (word_to_document_freqs s)"
    by (auto simp: rev_posting_def fmlookup_dom'_iff split: option.splits)
qed

lemma RemoveDocument_seq_absent:
  "fmlookup (document_to_word_freqs s) i = None \<Longrightarrow> RemoveDocument_seq s i = (Inr (), s)"
  by (simp add: RemoveDocument_seq_def)

lemma RemoveDocument_par_absent:
  "fmlookup (document_to_word_freqs s) i = None \<Longrightarrow> RemoveDocument_par visit s i = (Inr (), s)"
  by (simp add: RemoveDocument_par_def)

lemma RemoveDocument_seq_empty_words:
  assumes mirror: "\<forall>w i. rev_posting s w i = fwd_posting s i w"
    and look: "fmlookup (document_to_word_freqs s) i = Some wfs"
    and empty: "fmdom wfs |\<subseteq>| {|[]|}"
  shows "RemoveDocument_seq s i = (Inr (), removed s i wfs)"
proof -
  have "set (sorted_list_of_fset (fmdom wfs)) \<subseteq> fmdom' (word_to_document_freqs s)"
    using mirror_words_indexed [OF mirror look] by simp
  moreover have "set (sorted_list_of_fset (fmdom wfs)) \<subseteq> {[]}"
    using empty by auto
  ultimately show ?thesis
    using erase_loop_empty_words [of "sorted_list_of_fset (fmdom wfs)" "word_to_document_freqs s" False i]
    by (simp add: RemoveDocument_seq_def look removed_def)
qed

lemma RemoveDocument_par_empty_words:
  assumes mirror: "\<forall>w i. rev_posting s w i = fwd_posting s i w"
    and look: "fmlookup (document_to_word_freqs s) i = Some wfs"
    and empty: "fmdom wfs |\<subseteq>| {|[]|}"
    and perm: "set (visit (sorted_list_of_fset (fmdom wfs))) = fset (fmdom wfs)"
  shows "RemoveDocument_par visit s i = (Inr (), removed s i wfs)"
proof -
  have "set (visit (sorted_list_of_fset (fmdom wfs))) \<subseteq> fmdom' (word_to_document_freqs s)"
    using mirror_words_indexed [OF mirror look] perm by simp
  moreover have "set (visit (sorted_list_of_fset (fmdom wfs))) \<subseteq> {[]}"
    using empty perm by auto
  ultimately show ?thesis
    using erase_loop_empty_words [of "visit (sorted_list_of_fset (fmdom wfs))" "word_to_document_freqs s" False i]
    by (simp add: RemoveDocument_par_def look removed_def perm)
qed

lemma RemoveDocument_seq_freed_words:
  assumes mirror: "\<forall>w i. rev_posting s w i = fwd_posting s i w"
    and look: "fmlookup (document_to_word_freqs s) i = Some wfs"
    and words: "\<not> fmdom wfs |\<subseteq>| {|[]|}"
  shows "fst (RemoveDocument_seq s i) = Inl use_after_free"
proof -
  have "set (sorted_list_of_fset (fmdom wfs)) \<subseteq> fmdom' (word_to_document_freqs s)"
    using mirror_words_indexed [OF mirror look] by simp
  moreover have "\<not> set (sorted_list_of_fset (fmdom wfs)) \<subseteq> {[]}"
    using words by auto
  ultimately have "fst (erase_loop False i (sorted_list_of_fset (fmdom wfs)) (word_to_document_freqs s))
      = Inl use_after_free"
    by (rule erase_loop_freed_words)
  then obtain m where
    "erase_loop False i (sorted_list_of_fset (fmdom wfs)) (word_to_document_freqs s) = (Inl use_after_free, m)"
    by (cases "erase_loop False i (sorted_list_of_fset (fmdom wfs)) (word_to_document_freqs s)") auto
  then show ?thesis
    by (simp add: RemoveDocument_seq_def look)
qed

lemma RemoveDocument_par_freed_words:
  assumes mirror: "\<forall>w i. rev_posting s w i = fwd_posting s i w"
    and look: "fmlookup (document_to_word_freqs s) i = Some wfs"
    and words: "\<not> fmdom wfs |\<subseteq>| {|[]|}"
    and perm: "set (visit (sorted_list_of_fset (fmdom wfs))) = fset (fmdom wfs)"
  shows "fst (RemoveDocument_par visit s i) = Inl use_after_free"
proof -
  have "set (visit (sorted_list_of_fset (fmdom wfs))) \<subseteq> fmdom' (word_to_document_freqs s)"
    using mirror_words_indexed [OF mirror look] perm by simp
  moreover have "\<not> set (visit (sorted_list_of_fset (fmdom wfs))) \<subseteq> {[]}"
    using words perm by auto
  ultimately have "fst (erase_loop False i (visit (sorted_list_of_fset (fmdom wfs))) (word_to_document_freqs s))
      = Inl use_after_free"
    by (rule erase_loop_freed_words)
  then obtain m where
    "erase_loop False i (visit (sorted_list_of_fset (fmdom wfs))) (word_to_document_freqs s) = (Inl use_after_free, m)"
    by (cases "erase_loop False i (visit (sorted_list_of_fset (fmdom wfs))) (word_to_document_freqs s)") auto
  then show ?thesis
    by (simp add: RemoveDocument_par_def look)
qed

lemma rev_posting_removed:
  "rev_posting (removed s i wfs) w i' =
     (if i' = i \<and> w |\<in>| fmdom wfs then None else rev_posting s w i')"
  by (auto simp: rev_posting_def removed_def split: option.splits)

lemma fwd_posting_removed:
  "fwd_posting (removed s i wfs) i' w = (if i' = i then None else fwd_posting s i' w)"
  by (auto simp: fwd_posting_def removed_def split: option.splits)

lemma index_inv_removed:
  assumes inv: "index_inv s" and look: "fmlookup (document_to_word_freqs s) i = Some wfs"
  shows "index_inv (removed s i wfs)"
proof -
  have dom: "fmdom (document_to_word_freqs (removed s i wfs)) |\<subseteq>| fmdom (documents (removed s i wfs))"
    using inv unfolding index_inv_def removed_def by auto
  have ids: "document_ids (removed s i wfs) |\<subseteq>| fmdom (documents (removed s i wfs))"
    using inv unfolding index_inv_def removed_def by auto
  have mirror: "rev_posting (removed s i wfs) w i' = fwd_posting (removed s i wfs) i' w" for w i'
  proof -
    have m: "rev_posting s w i' = fwd_posting s i' w"
      using inv unfolding index_inv_def by blast
    have "fwd_posting s i w = None" if "w |\<notin>| fmdom wfs"
      using that look by (simp add: fwd_posting_def fmdom_notD)
    with m show ?thesis
      by (auto simp: rev_posting_removed fwd_posting_removed)
  qed
  have sw: "SplitIntoWordsNoStop (removed s i wfs) t = SplitIntoWordsNoStop s t" for t
    by (rule SplitIntoWordsNoStop_cong) (simp add: removed_def)
  have link: "\<exists>d words.
             fmlookup (documents (removed s i wfs)) i' = Some d \<and>
             SplitIntoWordsNoStop (removed s i wfs) (doc_text d) = Inr words \<and> words \<noteq> [] \<and>
             (\<forall>word. fmlookup fs word =
                (if word \<in> set words
                 then Some (double_sum (count_list words word)
                              (double_div 1 (to_double (real (length words)))))
                 else None))"
    if "fmlookup (document_to_word_freqs (removed s i wfs)) i' = Some fs" for i' fs
  proof -
    from that have ne: "i' \<noteq> i" and "fmlookup (document_to_word_freqs s) i' = Some fs"
      by (simp_all add: removed_def split: if_splits)
    with inv obtain d words where
      "fmlookup (documents s) i' = Some d"
      "SplitIntoWordsNoStop s (doc_text d) = Inr words" "words \<noteq> []"
      "\<forall>word. fmlookup fs word =
                (if word \<in> set words
                 then Some (double_sum (count_list words word)
                              (double_div 1 (to_double (real (length words)))))
                 else None)"
      unfolding index_inv_def by blast
    with ne show ?thesis
      by (intro exI [of _ d] exI [of _ words]) (simp add: sw, simp add: removed_def)
  qed
  show ?thesis
    unfolding index_inv_def using dom ids mirror link by blast
qed

lemma exec_Remove_cases:
  assumes "index_inv s"
  shows "exec (Remove i) s = s \<or>
    (\<exists>wfs. fmlookup (document_to_word_freqs s) i = Some wfs \<and> fmdom wfs |\<subseteq>| {|[]|} \<and>
       exec (Remove i) s = removed s i wfs)"
proof (cases "fmlookup (document_to_word_freqs s) i")
  case None
  then show ?thesis by (simp add: RemoveDocument_def RemoveDocument_seq_absent)
next
  case (Some wfs)
  have mirror: "\<forall>w i. rev_posting s w i = fwd_posting s i w"
    using assms unfolding index_inv_def by blast
  show ?thesis
  proof (cases "fmdom wfs |\<subseteq>| {|[]|}")
    case True
    from RemoveDocument_seq_empty_words [OF mirror Some True] Some True show ?thesis
      by (simp add: RemoveDocument_def)
  next
    case False
    from RemoveDocument_seq_freed_words [OF mirror Some False] show ?thesis
      by (cases "RemoveDocument_seq s i") (auto simp: RemoveDocument_def)
  qed
qed

lemma index_inv_new_server: "index_inv (new_server sw)"
  by (simp add: index_inv_def new_server_def rev_posting_def fwd_posting_def)

lemma index_inv_exec: "index_inv s \<Longrightarrow> index_inv (exec c s)"
proof (cases c)
  case (Add i doc st rs)
  assume "index_inv s"
  then show ?thesis by (simp add: Add index_inv_AddDocument)
next
  case (Remove i)
  assume inv: "index_inv s"
  from exec_Remove_cases [OF inv, of i] show ?thesis
    unfolding Remove using inv index_inv_removed [OF inv] by auto
qed

lemma index_inv_fold_exec: "index_inv s \<Longrightarrow> index_inv (fold exec cmds s)"
  by (induction cmds arbitrary: s) (simp_all add: index_inv_exec)

lemma index_inv_run: "index_inv (run sw cmds)"
  unfolding run_def by (rule index_inv_fold_exec) (rule index_inv_new_server)

lemma document_ids_known:
  "document_id |\<in>| document_ids (run sw cmds) \<Longrightarrow> document_id |\<in>| fmdom (documents (run sw cmds))"
  using index_inv_run [of sw cmds] unfolding index_inv_def by auto

section \<open>Rounding to double\<close>

lemma unit_roundoff_bounds: "0 < unit_roundoff" "unit_roundoff < 1"
  by (simp_all add: unit_roundoff_def)

lemma binade_le:
  assumes "x \<noteq> 0"
  shows "2 powi binade x \<le> \<bar>x\<bar>"
proof (cases "1 \<le> \<bar>x\<bar>")
  case True
  let ?N = "nat \<lfloor>\<bar>x\<bar>\<rfloor>"
  have N: "0 < ?N" using True by simp
  have fl: "0 < floorlog 2 ?N"
    using N by (simp add: floorlog_eq_zero_iff zero_less_iff_neq_zero)
  have "2 ^ (floorlog 2 ?N - 1) \<le> ?N"
    by (rule conjunct1 [OF floorlog_bounds [OF N]]) simp
  then have "(2::real) ^ (floorlog 2 ?N - 1) \<le> real ?N"
    by (metis of_nat_le_iff of_nat_numeral of_nat_power)
  also have "real ?N \<le> \<bar>x\<bar>"
    using True by simp
  finally have "(2::real) ^ (floorlog 2 ?N - 1) \<le> \<bar>x\<bar>" .
  moreover have "binade x = int (floorlog 2 ?N - 1)"
    using True fl by (simp add: binade_def)
  ultimately show ?thesis by simp
next
  case False
  let ?M = "nat \<lceil>1 / \<bar>x\<bar>\<rceil>"
  have pos: "0 < \<bar>x\<bar>" using assms by simp
  have gt: "1 < 1 / \<bar>x\<bar>" using False pos by simp
  then have "1 < \<lceil>1 / \<bar>x\<bar>\<rceil>" by linarith
  then have M: "2 \<le> ?M" by linarith
  have K: "0 < ?M - 1" using M by linarith
  have "?M - 1 < 2 ^ floorlog 2 (?M - 1)"
    by (rule conjunct2 [OF floorlog_bounds [OF K]]) simp
  then have "?M \<le> 2 ^ floorlog 2 (?M - 1)" by linarith
  then have "real ?M \<le> 2 ^ floorlog 2 (?M - 1)"
    by (metis of_nat_le_iff of_nat_numeral of_nat_power)
  moreover have "1 / \<bar>x\<bar> \<le> real ?M"
    by (rule real_nat_ceiling_ge)
  ultimately have "1 / \<bar>x\<bar> \<le> 2 ^ floorlog 2 (?M - 1)" by linarith
  then have "1 / 2 ^ floorlog 2 (?M - 1) \<le> \<bar>x\<bar>"
    using pos by (simp add: field_simps)
  moreover have "binade x = - int (floorlog 2 (?M - 1))"
    using False by (simp add: binade_def)
  ultimately show ?thesis
    by (simp add: power_int_minus divide_inverse)
qed

lemma round_half_even_error: "\<bar>of_int (round_half_even y) - y\<bar> \<le> 1 / 2"
  unfolding round_half_even_def Let_def by (auto simp: abs_if) linarith+

lemma to_double_error: "\<bar>to_double x - x\<bar> \<le> unit_roundoff * \<bar>x\<bar>"
proof (cases "x = 0")
  case True
  then show ?thesis by (simp add: to_double_def)
next
  case False
  define ulp :: real where "ulp = 2 powi (binade x - 52)"
  have ulp_pos: "0 < ulp" by (simp add: ulp_def)
  have "to_double x - x = (of_int (round_half_even (x / ulp)) - x / ulp) * ulp"
    using False ulp_pos by (simp add: to_double_def Let_def ulp_def [symmetric] field_simps)
  then have "\<bar>to_double x - x\<bar> = \<bar>of_int (round_half_even (x / ulp)) - x / ulp\<bar> * ulp"
    using ulp_pos by (simp add: abs_mult)
  also have "\<dots> \<le> 1 / 2 * ulp"
    using round_half_even_error [of "x / ulp"] ulp_pos by (simp add: mult_right_mono)
  also have "1 / 2 * ulp = 2 powi binade x * unit_roundoff"
    by (simp add: ulp_def unit_roundoff_def power_int_diff)
  also have "\<dots> \<le> \<bar>x\<bar> * unit_roundoff"
    using binade_le [OF False] unit_roundoff_bounds(1) by (simp add: mult_right_mono)
  finally show ?thesis by (simp add: mult.commute)
qed

lemma to_double_bounds:
  assumes "0 \<le> x"
  shows "x * (1 - unit_roundoff) \<le> to_double x" "to_double x \<le> x * (1 + unit_roundoff)"
  using to_double_error [of x] assms by (simp_all add: algebra_simps abs_le_iff)

section \<open>Bounds on the stored frequencies\<close>

lemma double_sum_Suc: "double_sum (Suc k) x = to_double (double_sum k x + x)"
  by (simp add: double_sum_def double_add_def)

lemma double_sum_0: "double_sum 0 x = 0"
  by (simp add: double_sum_def)

lemma double_sum_bounds:
  assumes "0 \<le> x"
  shows "real k * x * (1 - unit_roundoff) ^ k \<le> double_sum k x \<and>
         double_sum k x \<le> real k * x * (1 + unit_roundoff) ^ k"
proof (induction k)
  case 0
  show ?case by (simp add: double_sum_0)
next
  case (Suc k)
  let ?u = unit_roundoff
  let ?S = "double_sum k x"
  have u: "0 < ?u" "?u < 1" by (rule unit_roundoff_bounds)+
  from Suc have lo: "real k * x * (1 - ?u) ^ k \<le> ?S" and hi: "?S \<le> real k * x * (1 + ?u) ^ k"
    by simp_all
  have S0: "0 \<le> ?S"
    using lo assms u by (meson mult_nonneg_nonneg of_nat_0_le_iff order_trans zero_le_power
        diff_ge_0_iff_ge less_imp_le)
  have nn: "0 \<le> ?S + x" using S0 assms by simp
  have "1 \<le> (1 + ?u) ^ k"
    using u by (simp add: one_le_power)
  from mult_left_mono [OF this assms] have p1: "x \<le> x * (1 + ?u) ^ k"
    by simp
  have "(1 - ?u) ^ k \<le> 1"
    using u by (simp add: power_le_one)
  from mult_left_mono [OF this assms] have p2: "x * (1 - ?u) ^ k \<le> x"
    by simp
  have "double_sum (Suc k) x \<le> (?S + x) * (1 + ?u)"
    unfolding double_sum_Suc by (rule to_double_bounds(2) [OF nn])
  also have "\<dots> \<le> (real k * x * (1 + ?u) ^ k + x * (1 + ?u) ^ k) * (1 + ?u)"
    using hi p1 u by (intro mult_right_mono add_mono) simp_all
  also have "\<dots> = real (Suc k) * x * (1 + ?u) ^ Suc k"
    by (simp add: algebra_simps)
  finally have upper: "double_sum (Suc k) x \<le> real (Suc k) * x * (1 + ?u) ^ Suc k" .
  have "real (Suc k) * x * (1 - ?u) ^ Suc k = (real k * x * (1 - ?u) ^ k + x * (1 - ?u) ^ k) * (1 - ?u)"
    by (simp add: algebra_simps)
  also have "\<dots> \<le> (?S + x) * (1 - ?u)"
    using lo p2 u by (intro mult_right_mono add_mono) simp_all
  also have "\<dots> \<le> double_sum (Suc k) x"
    unfolding double_sum_Suc by (rule to_double_bounds(1) [OF nn])
  finally show ?case using upper by simp
qed

lemma inv_word_count_bounds:
  assumes "0 < n"
  shows "0 < double_div 1 (to_double (real n))"
    and "(1 - unit_roundoff) / (1 + unit_roundoff) \<le> real n * double_div 1 (to_double (real n))"
    and "real n * double_div 1 (to_double (real n)) \<le> (1 + unit_roundoff) / (1 - unit_roundoff)"
proof -
  let ?u = unit_roundoff
  let ?c = "to_double (real n)"
  let ?x = "double_div 1 ?c"
  have u: "0 < ?u" "?u < 1" by (rule unit_roundoff_bounds)+
  have n: "0 < real n" using assms by simp
  have c_lo: "real n * (1 - ?u) \<le> ?c" and c_hi: "?c \<le> real n * (1 + ?u)"
    using to_double_bounds [of "real n"] by simp_all
  have c_pos: "0 < ?c"
    using c_lo n u by (meson diff_gt_0_iff_gt less_le_trans mult_pos_pos)
  have q: "0 \<le> 1 / ?c" using c_pos by simp
  have x_lo: "1 / ?c * (1 - ?u) \<le> ?x" and x_hi: "?x \<le> 1 / ?c * (1 + ?u)"
    unfolding double_div_def using to_double_bounds [OF q] by simp_all
  have "0 < 1 / ?c * (1 - ?u)" using c_pos u by simp
  with x_lo show "0 < ?x" by linarith
  have r_lo: "1 / (1 + ?u) \<le> real n / ?c"
    using c_hi c_pos u by (simp add: field_simps)
  have r_hi: "real n / ?c \<le> 1 / (1 - ?u)"
    using c_lo c_pos u by (simp add: field_simps)
  have "(1 - ?u) / (1 + ?u) = 1 / (1 + ?u) * (1 - ?u)"
    by simp
  also have "\<dots> \<le> real n / ?c * (1 - ?u)"
    using r_lo u by (intro mult_right_mono) simp_all
  also have "\<dots> = real n * (1 / ?c * (1 - ?u))"
    by simp
  also have "\<dots> \<le> real n * ?x"
    using x_lo n by (intro mult_left_mono) simp_all
  finally show "(1 - ?u) / (1 + ?u) \<le> real n * ?x" .
  have "real n * ?x \<le> real n * (1 / ?c * (1 + ?u))"
    using x_hi n by (intro mult_left_mono) simp_all
  also have "\<dots> = real n / ?c * (1 + ?u)"
    by simp
  also have "\<dots> \<le> 1 / (1 - ?u) * (1 + ?u)"
    using r_hi u by (intro mult_right_mono) simp_all
  also have "\<dots> = (1 + ?u) / (1 - ?u)"
    by simp
  finally show "real n * ?x \<le> (1 + ?u) / (1 - ?u)" .
qed

lemma count_list_le_length: "count_list ws w \<le> length ws"
  by (induction ws) auto

lemma stored_frequency_bounds:
  assumes ne: "ws \<noteq> []" and mem: "w \<in> set ws"
  shows "0 < double_sum (count_list ws w) (double_div 1 (to_double (real (length ws))))"
    and "double_sum (count_list ws w) (double_div 1 (to_double (real (length ws)))) \<le> freq_upper (length ws)"
proof -
  let ?u = unit_roundoff
  let ?n = "length ws"
  let ?k = "count_list ws w"
  let ?x = "double_div 1 (to_double (real ?n))"
  have u: "0 < ?u" "?u < 1" by (rule unit_roundoff_bounds)+
  have n: "0 < ?n" using ne by simp
  have k: "0 < ?k" using mem by (simp add: count_list_0_iff zero_less_iff_neq_zero)
  have kn: "?k \<le> ?n" by (rule count_list_le_length)
  note x = inv_word_count_bounds [OF n]
  have x0: "0 \<le> ?x" using x(1) by simp
  note b = double_sum_bounds [OF x0, of ?k]
  have "0 < real ?k * ?x * (1 - ?u) ^ ?k"
    using k x(1) u by simp
  with b show "0 < double_sum ?k ?x" by linarith
  have "double_sum ?k ?x \<le> real ?k * ?x * (1 + ?u) ^ ?k" using b by simp
  also have "\<dots> \<le> real ?n * ?x * (1 + ?u) ^ ?n"
    using kn x0 u by (intro mult_mono power_increasing) simp_all
  also have "\<dots> \<le> (1 + ?u) / (1 - ?u) * (1 + ?u) ^ ?n"
    using x(3) u by (intro mult_right_mono) simp_all
  also have "\<dots> = freq_upper ?n"
    by (simp add: freq_upper_def)
  finally show "double_sum ?k ?x \<le> freq_upper ?n" .
qed

lemma freq_sum_bounds:
  assumes ne: "ws \<noteq> []"
    and val: "\<And>w. fmlookup wfs w =
        (if w \<in> set ws
         then Some (double_sum (count_list ws w) (double_div 1 (to_double (real (length ws)))))
         else None)"
  shows "freq_lower (length ws) \<le> freq_sum wfs" and "freq_sum wfs \<le> freq_upper (length ws)"
proof -
  let ?u = unit_roundoff
  let ?n = "length ws"
  let ?x = "double_div 1 (to_double (real ?n))"
  have u: "0 < ?u" "?u < 1" by (rule unit_roundoff_bounds)+
  have n: "0 < ?n" using ne by simp
  note x = inv_word_count_bounds [OF n]
  have x0: "0 \<le> ?x" using x(1) by simp
  have dom: "fmdom' wfs = set ws"
    by (auto simp: fmlookup_dom'_iff val split: if_splits)
  have sum: "freq_sum wfs = (\<Sum>w\<in>set ws. double_sum (count_list ws w) ?x)"
    unfolding freq_sum_def dom by (rule sum.cong) (simp_all add: val)
  have cnt: "(\<Sum>w\<in>set ws. real (count_list ws w)) = real ?n"
    using sum_count_set [of ws "set ws"] by (simp flip: of_nat_sum)
  have "freq_sum wfs \<le> (\<Sum>w\<in>set ws. real (count_list ws w) * ?x * (1 + ?u) ^ ?n)"
    unfolding sum
  proof (rule sum_mono)
    fix w assume "w \<in> set ws"
    have "double_sum (count_list ws w) ?x \<le> real (count_list ws w) * ?x * (1 + ?u) ^ count_list ws w"
      using double_sum_bounds [OF x0, of "count_list ws w"] by simp
    also have "\<dots> \<le> real (count_list ws w) * ?x * (1 + ?u) ^ ?n"
      using x0 u count_list_le_length [of ws w] by (intro mult_left_mono power_increasing) simp_all
    finally show "double_sum (count_list ws w) ?x \<le> real (count_list ws w) * ?x * (1 + ?u) ^ ?n" .
  qed
  also have "\<dots> = real ?n * ?x * (1 + ?u) ^ ?n"
    by (simp flip: sum_distrib_right add: cnt)
  also have "\<dots> \<le> (1 + ?u) / (1 - ?u) * (1 + ?u) ^ ?n"
    using x(3) u by (intro mult_right_mono) simp_all
  also have "\<dots> = freq_upper ?n"
    by (simp add: freq_upper_def)
  finally show "freq_sum wfs \<le> freq_upper ?n" .
  have "freq_lower ?n = (1 - ?u) / (1 + ?u) * (1 - ?u) ^ ?n"
    by (simp add: freq_lower_def)
  also have "\<dots> \<le> real ?n * ?x * (1 - ?u) ^ ?n"
    using x(2) u by (intro mult_right_mono) simp_all
  also have "\<dots> = (\<Sum>w\<in>set ws. real (count_list ws w) * ?x * (1 - ?u) ^ ?n)"
    by (simp flip: sum_distrib_right add: cnt)
  also have "\<dots> \<le> freq_sum wfs"
    unfolding sum
  proof (rule sum_mono)
    fix w assume "w \<in> set ws"
    have "real (count_list ws w) * ?x * (1 - ?u) ^ ?n
        \<le> real (count_list ws w) * ?x * (1 - ?u) ^ count_list ws w"
      using x0 u count_list_le_length [of ws w] by (intro mult_left_mono power_decreasing) simp_all
    also have "\<dots> \<le> double_sum (count_list ws w) ?x"
      using double_sum_bounds [OF x0, of "count_list ws w"] by simp
    finally show "real (count_list ws w) * ?x * (1 - ?u) ^ ?n \<le> double_sum (count_list ws w) ?x" .
  qed
  finally show "freq_lower ?n \<le> freq_sum wfs" .
qed

section \<open>Sequential and parallel variants\<close>

lemma minus_loop_list_ex: "minus_loop s i ws = list_ex (word_checker s i) ws"
  by (induction ws) (auto simp: word_checker_def split: option.splits)

lemma plus_loop_filter: "plus_loop s i ws acc = acc @ filter (word_checker s i) ws"
  by (induction ws arbitrary: acc) (auto simp: word_checker_def split: option.splits)

lemma distinct_remdups_adj_sorted:
  fixes xs :: "'a::linorder list"
  shows "sorted xs \<Longrightarrow> distinct (remdups_adj xs)"
  by (induction xs rule: remdups_adj.induct) auto

lemma filter_remdups_adj_sort:
  fixes xs :: "'a::linorder list"
  shows "filter P (remdups_adj (sort xs)) = remdups_adj (sort (filter P xs))"
proof (rule sorted_distinct_set_unique)
  show "sorted (filter P (remdups_adj (sort xs)))"
    by (simp add: sorted_wrt_filter)
  show "distinct (filter P (remdups_adj (sort xs)))"
    by (simp add: distinct_remdups_adj_sorted)
  show "sorted (remdups_adj (sort (filter P xs)))"
    by simp
  show "distinct (remdups_adj (sort (filter P xs)))"
    by (simp add: distinct_remdups_adj_sorted)
  show "set (filter P (remdups_adj (sort xs))) = set (remdups_adj (sort (filter P xs)))"
    by simp
qed

lemma MatchDocument_par_seq:
  "MatchDocument_par s raw_query i = MatchDocument_seq s raw_query i"
proof (cases "ParseQuery_loop s (SplitIntoWords raw_query) \<lparr>plus_words = [], minus_words = []\<rparr>")
  case (Inl e)
  then show ?thesis
    by (simp add: MatchDocument_par_def MatchDocument_seq_def ParseQuery_def)
next
  case (Inr q)
  show ?thesis
  proof (cases "fmlookup (documents s) i")
    case None
    then show ?thesis
      by (simp add: MatchDocument_par_def MatchDocument_seq_def ParseQuery_def Inr)
  next
    case (Some d)
    then show ?thesis
      by (simp add: MatchDocument_par_def MatchDocument_seq_def ParseQuery_def Inr
          minus_loop_list_ex plus_loop_filter filter_remdups_adj_sort list_ex_iff)
  qed
qed

lemma RemoveDocument_variants:
  assumes "\<And>ws. mset (visit ws) = mset ws"
  shows "fst (RemoveDocument_par visit (run sw cmds) document_id) =
           fst (RemoveDocument_seq (run sw cmds) document_id) \<and>
         (fst (RemoveDocument_seq (run sw cmds) document_id) = Inr () \<longrightarrow>
            RemoveDocument_par visit (run sw cmds) document_id =
              RemoveDocument_seq (run sw cmds) document_id)"
proof (cases "fmlookup (document_to_word_freqs (run sw cmds)) document_id")
  case None
  then show ?thesis
    by (simp add: RemoveDocument_par_absent RemoveDocument_seq_absent)
next
  case (Some wfs)
  let ?s = "run sw cmds"
  have mirror: "\<forall>w i. rev_posting ?s w i = fwd_posting ?s i w"
    using index_inv_run [of sw cmds] unfolding index_inv_def by blast
  have "set (visit (sorted_list_of_fset (fmdom wfs))) = set (sorted_list_of_fset (fmdom wfs))"
    using assms by (metis set_mset_mset)
  then have perm: "set (visit (sorted_list_of_fset (fmdom wfs))) = fset (fmdom wfs)"
    by simp
  show ?thesis
  proof (cases "fmdom wfs |\<subseteq>| {|[]|}")
    case True
    show ?thesis
      by (simp add: RemoveDocument_par_empty_words [where visit = visit, OF mirror Some True perm]
          RemoveDocument_seq_empty_words [OF mirror Some True])
  next
    case False
    show ?thesis
      by (simp add: RemoveDocument_par_freed_words [where visit = visit, OF mirror Some False perm]
          RemoveDocument_seq_freed_words [OF mirror Some False])
  qed
qed

lemma RemoveDocument_with_words_undefined:
  assumes "\<And>ws. mset (visit ws) = mset ws"
    and "fmlookup (GetWordFrequencies (run sw cmds) document_id) word = Some f"
    and "word \<noteq> []"
  shows "fst (RemoveDocument_seq (run sw cmds) document_id) = Inl use_after_free \<and>
         fst (RemoveDocument_par visit (run sw cmds) document_id) = Inl use_after_free"
proof -
  let ?s = "run sw cmds"
  from assms(2) obtain wfs where look: "fmlookup (document_to_word_freqs ?s) document_id = Some wfs"
    and w: "fmlookup wfs word = Some f"
    by (auto simp: GetWordFrequencies_def split: option.splits)
  have mirror: "\<forall>w i. rev_posting ?s w i = fwd_posting ?s i w"
    using index_inv_run [of sw cmds] unfolding index_inv_def by blast
  have "word |\<in>| fmdom wfs" using w by (rule fmdomI)
  with assms(3) have words: "\<not> fmdom wfs |\<subseteq>| {|[]|}" by auto
  have "fst (RemoveDocument_seq ?s document_id) = Inl use_after_free"
    by (rule RemoveDocument_seq_freed_words [OF mirror look words])
  then show ?thesis
    using RemoveDocument_variants [OF assms(1), of sw cmds document_id] by simp
qed

text \<open>
  C7 (as the code has it). Both variants of \<open>RemoveDocument\<close> erase the entry of
  \<open>documents_\<close> first and then look up the words of the document, which are views into
  the erased text. For the document \<open>cat dog\<close> both read freed memory: the behaviour is
  undefined, and no state after the removal is defined in which the two could agree.
\<close>

theorem RemoveDocument_reads_erased_text:
  "fst (RemoveDocument_seq (run {||} [Add 1 ''cat dog'' ACTIVE []]) 1) = Inl use_after_free \<and>
   fst (RemoveDocument_par rev (run {||} [Add 1 ''cat dog'' ACTIVE []]) 1) = Inl use_after_free \<and>
   fmdom (GetWordFrequencies (run {||} [Add 1 ''cat dog'' ACTIVE []]) 1) = {|''cat'', ''dog''|}"
  by code_simp

section \<open>Documents without words\<close>

lemma NoStop_loop_Nil_iff:
  "NoStop_loop s ws = Inr [] \<longleftrightarrow> (\<forall>w \<in> set ws. IsValidWord w \<and> IsStopWord s w)"
  by (induction ws) (auto split: sum.splits)

lemma SplitIntoWordsNoStop_Nil_iff:
  "SplitIntoWordsNoStop s txt = Inr [] \<longleftrightarrow>
     (\<forall>w \<in> set (SplitIntoWords txt). IsValidWord w \<and> IsStopWord s w)"
  by (simp add: SplitIntoWordsNoStop_def NoStop_loop_Nil_iff)

text \<open>
  C10. In every index state, a document whose text gives no word after the stop words
  are dropped is added without an exception if its id is not negative and not yet known:
  \<open>GetDocumentCount\<close> grows by one, the id is among the document ids,
  \<open>GetWordFrequencies\<close> of the id is empty, and no word has a posting for the id.
\<close>

theorem AddDocument_without_words:
  assumes "0 \<le> document_id"
    and "document_id |\<notin>| fmdom (documents (run sw cmds))"
    and "SplitIntoWordsNoStop (run sw cmds) document = Inr []"
  shows "fst (AddDocument (run sw cmds) document_id document st ratings) = Inr () \<and>
    GetDocumentCount (snd (AddDocument (run sw cmds) document_id document st ratings)) =
      GetDocumentCount (run sw cmds) + 1 \<and>
    document_id \<in> set (DocumentIds (snd (AddDocument (run sw cmds) document_id document st ratings))) \<and>
    GetWordFrequencies (snd (AddDocument (run sw cmds) document_id document st ratings)) document_id = fmempty \<and>
    (\<forall>word. rev_posting (snd (AddDocument (run sw cmds) document_id document st ratings)) word document_id = None)"
proof -
  let ?s = "run sw cmds"
  have inv: "index_inv ?s" by (rule index_inv_run)
  have none: "fmlookup (document_to_word_freqs ?s) document_id = None"
    using inv assms(2) unfolding index_inv_def by (meson fmdom_notD fsubsetD)
  have rev: "rev_posting ?s word document_id = None" for word
  proof -
    have "rev_posting ?s word document_id = fwd_posting ?s document_id word"
      using inv unfolding index_inv_def by blast
    then show ?thesis using none by (simp add: fwd_posting_def)
  qed
  show ?thesis
    using none rev
    by (simp add: AddDocument_ok [OF assms] GetDocumentCount_def DocumentIds_def
        GetWordFrequencies_def fcard_finsert_disjoint assms(2))
qed

theorem AddDocument_without_words_witness:
  "(0::int) \<le> 2 \<and>
   2 |\<notin>| fmdom (documents (run {|''the''|} [Add 1 ''cat'' ACTIVE []])) \<and>
   SplitIntoWordsNoStop (run {|''the''|} [Add 1 ''cat'' ACTIVE []]) ''the the'' = Inr [] \<and>
   fst (AddDocument (run {|''the''|} [Add 1 ''cat'' ACTIVE []]) 2 ''the the'' ACTIVE [3]) = Inr () \<and>
   GetDocumentCount (snd (AddDocument (run {|''the''|} [Add 1 ''cat'' ACTIVE []]) 2 ''the the'' ACTIVE [3])) =
     GetDocumentCount (run {|''the''|} [Add 1 ''cat'' ACTIVE []]) + 1 \<and>
   GetWordFrequencies (snd (AddDocument (run {|''the''|} [Add 1 ''cat'' ACTIVE []]) 2 ''the the'' ACTIVE [3])) 2 = fmempty"
proof -
  have h1: "(0::int) \<le> 2" by simp
  have h2: "2 |\<notin>| fmdom (documents (run {|''the''|} [Add 1 ''cat'' ACTIVE []]))"
    by code_simp
  have h3: "SplitIntoWordsNoStop (run {|''the''|} [Add 1 ''cat'' ACTIVE []]) ''the the'' = Inr []"
    by code_simp
  from AddDocument_without_words [OF h1 h2 h3, of ACTIVE "[3]"] h2 h3 show ?thesis
    by simp
qed

section \<open>Term frequencies\<close>

lemma freq_bounds_around_one: "freq_lower n \<le> 1 \<and> 1 \<le> freq_upper n"
proof -
  let ?u = unit_roundoff
  have u: "0 < ?u" "?u < 1" by (rule unit_roundoff_bounds)+
  have "(1 - ?u) ^ (n + 1) \<le> 1"
    using u by (intro power_le_one) simp_all
  then have "(1 - ?u) ^ (n + 1) \<le> 1 + ?u" using u by linarith
  then have lo: "freq_lower n \<le> 1"
    using u by (simp add: freq_lower_def field_simps)
  have "1 \<le> (1 + ?u) ^ (n + 1)"
    using u by (intro one_le_power) simp_all
  then have "1 - ?u \<le> (1 + ?u) ^ (n + 1)" using u by linarith
  then have "1 \<le> freq_upper n"
    using u by (simp add: freq_upper_def field_simps)
  with lo show ?thesis ..
qed

text \<open>
  C4 (amended). In every index state, a document for which \<open>GetWordFrequencies\<close> returns
  any frequency has metadata, and with \<open>n\<close> the number of words of its text that are no
  stop words and \<open>u = 2\<^sup>-\<^sup>5\<^sup>3\<close>: every frequency of the document is positive and at most
  \<open>(1 + u)\<^sup>n\<^sup>+\<^sup>1 / (1 - u)\<close>, and the sum of its frequencies lies between
  \<open>(1 - u)\<^sup>n\<^sup>+\<^sup>1 / (1 + u)\<close> and \<open>(1 + u)\<^sup>n\<^sup>+\<^sup>1 / (1 - u)\<close>: it is 1 up to the rounding of the
  additions.
\<close>

theorem frequencies_of_indexed_words:
  "GetWordFrequencies (run sw cmds) document_id \<noteq> fmempty \<longrightarrow>
     (\<exists>d words.
        fmlookup (documents (run sw cmds)) document_id = Some d \<and>
        SplitIntoWordsNoStop (run sw cmds) (doc_text d) = Inr words \<and> words \<noteq> [] \<and>
        (\<forall>word f. fmlookup (GetWordFrequencies (run sw cmds) document_id) word = Some f \<longrightarrow>
           0 < f \<and> f \<le> freq_upper (length words)) \<and>
        freq_lower (length words) \<le> freq_sum (GetWordFrequencies (run sw cmds) document_id) \<and>
        freq_sum (GetWordFrequencies (run sw cmds) document_id) \<le> freq_upper (length words))"
proof (cases "fmlookup (document_to_word_freqs (run sw cmds)) document_id")
  case None
  then show ?thesis by (simp add: GetWordFrequencies_def)
next
  case (Some wfs)
  let ?s = "run sw cmds"
  have "index_inv ?s" by (rule index_inv_run)
  with Some obtain d words where d: "fmlookup (documents ?s) document_id = Some d"
    and split: "SplitIntoWordsNoStop ?s (doc_text d) = Inr words" and ne: "words \<noteq> []"
    and val: "\<And>word. fmlookup wfs word =
                (if word \<in> set words
                 then Some (double_sum (count_list words word)
                              (double_div 1 (to_double (real (length words)))))
                 else None)"
    unfolding index_inv_def by blast
  have each: "0 < f \<and> f \<le> freq_upper (length words)" if "fmlookup wfs word = Some f" for word f
  proof -
    from that val [of word] have mem: "word \<in> set words"
      and f: "f = double_sum (count_list words word) (double_div 1 (to_double (real (length words))))"
      by (simp_all split: if_splits)
    from stored_frequency_bounds [OF ne mem] show ?thesis
      unfolding f by simp
  qed
  have sum: "freq_lower (length words) \<le> freq_sum wfs" "freq_sum wfs \<le> freq_upper (length words)"
    using freq_sum_bounds [OF ne val] by simp_all
  have "GetWordFrequencies ?s document_id = wfs"
    by (simp add: GetWordFrequencies_def Some)
  with d split ne each sum show ?thesis by blast
qed

theorem frequencies_of_indexed_words_witness:
  "GetWordFrequencies (run {|''the''|} [Add 1 ''the cat'' ACTIVE [], Add 2 ''cat dog cat'' ACTIVE []]) 2 \<noteq> fmempty \<and>
   (\<exists>d words.
      fmlookup (documents (run {|''the''|} [Add 1 ''the cat'' ACTIVE [], Add 2 ''cat dog cat'' ACTIVE []])) 2 = Some d \<and>
      SplitIntoWordsNoStop (run {|''the''|} [Add 1 ''the cat'' ACTIVE [], Add 2 ''cat dog cat'' ACTIVE []])
        (doc_text d) = Inr words \<and> words \<noteq> [] \<and>
      freq_lower (length words) \<le>
        freq_sum (GetWordFrequencies (run {|''the''|} [Add 1 ''the cat'' ACTIVE [], Add 2 ''cat dog cat'' ACTIVE []]) 2) \<and>
      freq_sum (GetWordFrequencies (run {|''the''|} [Add 1 ''the cat'' ACTIVE [], Add 2 ''cat dog cat'' ACTIVE []]) 2)
        \<le> freq_upper (length words))"
proof -
  let ?s = "run {|''the''|} [Add 1 ''the cat'' ACTIVE [], Add 2 ''cat dog cat'' ACTIVE []]"
  have "''dog'' |\<in>| fmdom (GetWordFrequencies ?s 2)"
    by code_simp
  then have ne: "GetWordFrequencies ?s 2 \<noteq> fmempty"
    by auto
  from frequencies_of_indexed_words [of "{|''the''|}" "[Add 1 ''the cat'' ACTIVE [], Add 2 ''cat dog cat'' ACTIVE []]" 2]
    ne show ?thesis by blast
qed

text \<open>
  C4 (as the code has it). A document of stop words only is indexed, and the sum of its
  frequencies is 0, not 1.
\<close>

theorem frequencies_of_document_without_words:
  "1 \<in> set (DocumentIds (run {|''the''|} [Add 1 ''the'' ACTIVE []])) \<and>
   freq_sum (GetWordFrequencies (run {|''the''|} [Add 1 ''the'' ACTIVE []]) 1) = 0"
proof -
  have "GetWordFrequencies (run {|''the''|} [Add 1 ''the'' ACTIVE []]) 1 = fmempty"
    by code_simp
  moreover have "1 \<in> set (DocumentIds (run {|''the''|} [Add 1 ''the'' ACTIVE []]))"
    by code_simp
  ultimately show ?thesis by (simp add: freq_sum_def)
qed

section \<open>Insertion followed by removal\<close>

text \<open>Removing an id without metadata changes nothing.\<close>

lemma RemoveDocument_unknown:
  assumes "document_id |\<notin>| fmdom (documents (run sw cmds))"
  shows "RemoveDocument (run sw cmds) document_id = (Inr (), run sw cmds)"
proof -
  have "index_inv (run sw cmds)" by (rule index_inv_run)
  with assms have "fmlookup (document_to_word_freqs (run sw cmds)) document_id = None"
    unfolding index_inv_def by (meson fmdom_notD fsubsetD)
  then show ?thesis by (simp add: RemoveDocument_def RemoveDocument_seq_absent)
qed

text \<open>
  C2 (as the code has it). \<open>RemoveDocument\<close> tests \<open>document_to_word_freqs_\<close> for the
  id. A document of stop words only has no entry there, so removing it changes nothing:
  after \<open>AddDocument\<close> and \<open>RemoveDocument\<close> the server still counts one document
  and still lists its id.
\<close>

theorem RemoveDocument_keeps_document_without_words:
  "fst (AddDocument (new_server {|''the''|}) 1 ''the'' ACTIVE []) = Inr () \<and>
   RemoveDocument (snd (AddDocument (new_server {|''the''|}) 1 ''the'' ACTIVE [])) 1 =
     (Inr (), snd (AddDocument (new_server {|''the''|}) 1 ''the'' ACTIVE [])) \<and>
   GetDocumentCount (new_server {|''the''|}) = 0 \<and>
   DocumentIds (new_server {|''the''|}) = [] \<and>
   GetDocumentCount (snd (RemoveDocument (snd (AddDocument (new_server {|''the''|}) 1 ''the'' ACTIVE [])) 1)) = 1 \<and>
   DocumentIds (snd (RemoveDocument (snd (AddDocument (new_server {|''the''|}) 1 ''the'' ACTIVE [])) 1)) = [1]"
  by code_simp

section \<open>Duplicate removal\<close>

text \<open>
  C9 (as the code has it). Documents 1 and 2 consist of stop words and have the same
  (empty) set of words. \<open>RemoveDuplicates\<close> finds 2 to be a duplicate, but
  \<open>RemoveDocument\<close> does not remove a document without words: both ids remain.
\<close>

theorem RemoveDuplicates_keeps_documents_without_words:
  "GetWordFrequencies (run {|''the''|} [Add 1 ''the'' ACTIVE [], Add 2 ''the the'' ACTIVE []]) 1 =
   GetWordFrequencies (run {|''the''|} [Add 1 ''the'' ACTIVE [], Add 2 ''the the'' ACTIVE []]) 2 \<and>
   find_duplicates (run {|''the''|} [Add 1 ''the'' ACTIVE [], Add 2 ''the the'' ACTIVE []]) [1, 2] {||} [] = [2] \<and>
   fst (RemoveDuplicates (run {|''the''|} [Add 1 ''the'' ACTIVE [], Add 2 ''the the'' ACTIVE []])) = Inr () \<and>
   DocumentIds (snd (RemoveDuplicates (run {|''the''|} [Add 1 ''the'' ACTIVE [], Add 2 ''the the'' ACTIVE []]))) = [1, 2] \<and>
   GetDocumentCount (snd (RemoveDuplicates (run {|''the''|} [Add 1 ''the'' ACTIVE [], Add 2 ''the the'' ACTIVE []]))) = 2"
  by code_simp

section \<open>Parsed queries\<close>

lemma ParseQueryWord_is_stop:
  "ParseQueryWord s word = Inr query_word \<Longrightarrow> is_stop query_word = IsStopWord s (data query_word)"
  by (auto simp: ParseQueryWord_def Let_def split: if_splits)

lemma ParseQuery_loop_no_stop:
  assumes "ParseQuery_loop s ws result = Inr query"
    and "\<forall>word \<in> set (plus_words result) \<union> set (minus_words result). \<not> IsStopWord s word"
  shows "\<forall>word \<in> set (plus_words query) \<union> set (minus_words query). \<not> IsStopWord s word"
  using assms
proof (induction ws arbitrary: result)
  case Nil
  then show ?case by simp
next
  case (Cons w ws)
  from Cons.prems(1) obtain qw where qw: "ParseQueryWord s w = Inr qw"
    by (auto split: sum.splits)
  let ?result' = "if \<not> is_stop qw
             then (if is_minus qw
                   then result\<lparr>minus_words := minus_words result @ [data qw]\<rparr>
                   else result\<lparr>plus_words := plus_words result @ [data qw]\<rparr>)
             else result"
  from Cons.prems(1) qw have loop: "ParseQuery_loop s ws ?result' = Inr query"
    by simp
  have "\<forall>word \<in> set (plus_words ?result') \<union> set (minus_words ?result'). \<not> IsStopWord s word"
    using Cons.prems(2) ParseQueryWord_is_stop [OF qw] by auto
  from Cons.IH [OF loop this] show ?case .
qed

lemma ParseQuery_sorted_distinct:
  assumes "ParseQuery s raw_query False = Inr query"
  shows "sorted (plus_words query) \<and> distinct (plus_words query) \<and>
         sorted (minus_words query) \<and> distinct (minus_words query)"
  using assms by (auto simp: ParseQuery_def distinct_remdups_adj_sorted split: sum.splits)

text \<open>
  C8 (amended). When \<open>ParseQuery\<close> returns a query, no stop word is among its plus
  words or its minus words; unless \<open>skip_sort\<close> is set, each of the two lists is sorted
  and free of duplicates. The two lists need not be disjoint.
\<close>

theorem ParseQuery_structure:
  assumes "ParseQuery s raw_query skip_sort = Inr query"
  shows "(\<forall>word \<in> set (plus_words query) \<union> set (minus_words query). \<not> IsStopWord s word) \<and>
         (\<not> skip_sort \<longrightarrow>
            sorted (plus_words query) \<and> distinct (plus_words query) \<and>
            sorted (minus_words query) \<and> distinct (minus_words query))"
proof -
  from assms obtain result
    where loop: "ParseQuery_loop s (SplitIntoWords raw_query) \<lparr>plus_words = [], minus_words = []\<rparr> = Inr result"
      and query: "query = (if \<not> skip_sort
               then \<lparr>plus_words = remdups_adj (sort (plus_words result)),
                     minus_words = remdups_adj (sort (minus_words result))\<rparr>
               else result)"
    by (auto simp: ParseQuery_def split: sum.splits)
  have "\<forall>word \<in> set (plus_words result) \<union> set (minus_words result). \<not> IsStopWord s word"
    by (rule ParseQuery_loop_no_stop [OF loop]) simp
  moreover have "set (plus_words query) = set (plus_words result)"
    "set (minus_words query) = set (minus_words result)"
    unfolding query by simp_all
  ultimately show ?thesis
    using ParseQuery_sorted_distinct [of s raw_query query] assms by auto
qed

theorem ParseQuery_structure_witness:
  "ParseQuery (new_server {|''the''|}) ''dog the -rat cat dog -the'' False =
     Inr \<lparr>plus_words = [''cat'', ''dog''], minus_words = [''rat'']\<rparr> \<and>
   \<not> IsStopWord (new_server {|''the''|}) ''cat'' \<and>
   sorted [''cat'', ''dog''] \<and> distinct [''cat'', ''dog'']"
proof -
  have p: "ParseQuery (new_server {|''the''|}) ''dog the -rat cat dog -the'' False =
     Inr \<lparr>plus_words = [''cat'', ''dog''], minus_words = [''rat'']\<rparr>"
    by code_simp
  from ParseQuery_structure [OF p] p show ?thesis by simp
qed

text \<open>
  C8 (as the code has it). A word asked for with and without \<open>-\<close> is a plus word and a
  minus word; with \<open>skip_sort\<close> a repeated word stays repeated.
\<close>

theorem ParseQuery_not_disjoint:
  "ParseQuery (new_server {||}) ''cat -cat'' False =
     Inr \<lparr>plus_words = [''cat''], minus_words = [''cat'']\<rparr> \<and>
   set [''cat''] \<inter> set [''cat''] \<noteq> ({} :: string set) \<and>
   ParseQuery (new_server {||}) ''cat cat'' True =
     Inr \<lparr>plus_words = [''cat'', ''cat''], minus_words = []\<rparr> \<and>
   \<not> distinct [''cat'', ''cat'']"
proof -
  have "ParseQuery (new_server {||}) ''cat -cat'' False =
     Inr \<lparr>plus_words = [''cat''], minus_words = [''cat'']\<rparr>"
    by code_simp
  moreover have "ParseQuery (new_server {||}) ''cat cat'' True =
     Inr \<lparr>plus_words = [''cat'', ''cat''], minus_words = []\<rparr>"
    by code_simp
  ultimately show ?thesis by simp
qed

section \<open>The contract of MatchDocument\<close>

text \<open>
  C6 (amended). In every index state, \<open>MatchDocument\<close> parses the query first: if parsing
  throws, \<open>MatchDocument\<close> throws the same exception, whether the id is known or not. When
  the query parses, \<open>MatchDocument\<close> throws \<open>out_of_range\<close> for an id without metadata;
  otherwise, if a minus word has a posting for the id, it returns no words and the status
  of the document; otherwise it returns the status and the sorted, duplicate-free list of
  the plus words that have a posting for the id. (An index state is a state that calls
  with defined behaviour reach; what follows a call that reads an erased text is left
  open.)
\<close>

theorem MatchDocument_contract:
  "(\<forall>e. ParseQuery (run sw cmds) raw_query False = Inl e \<longrightarrow> MatchDocument (run sw cmds) raw_query document_id = Inl e) \<and>
   (\<forall>query. ParseQuery (run sw cmds) raw_query False = Inr query \<longrightarrow>
      (fmlookup (documents (run sw cmds)) document_id = None \<longrightarrow>
         MatchDocument (run sw cmds) raw_query document_id = Inl out_of_range) \<and>
      (\<forall>d. fmlookup (documents (run sw cmds)) document_id = Some d \<longrightarrow>
         ((\<exists>word \<in> set (minus_words query). word_checker (run sw cmds) document_id word) \<longrightarrow>
            MatchDocument (run sw cmds) raw_query document_id = Inr ([], status d)) \<and>
         (\<not> (\<exists>word \<in> set (minus_words query). word_checker (run sw cmds) document_id word) \<longrightarrow>
            (\<exists>words. MatchDocument (run sw cmds) raw_query document_id = Inr (words, status d) \<and>
               sorted words \<and> distinct words \<and>
               set words = {word \<in> set (plus_words query). word_checker (run sw cmds) document_id word}))))"
proof (intro conjI allI impI)
  fix e assume "ParseQuery (run sw cmds) raw_query False = Inl e"
  then show "MatchDocument (run sw cmds) raw_query document_id = Inl e"
    by (simp add: MatchDocument_def MatchDocument_seq_def)
next
  fix query assume "ParseQuery (run sw cmds) raw_query False = Inr query"
    and "fmlookup (documents (run sw cmds)) document_id = None"
  then show "MatchDocument (run sw cmds) raw_query document_id = Inl out_of_range"
    by (simp add: MatchDocument_def MatchDocument_seq_def)
next
  fix query d assume "ParseQuery (run sw cmds) raw_query False = Inr query"
    and "fmlookup (documents (run sw cmds)) document_id = Some d"
    and "\<exists>word \<in> set (minus_words query). word_checker (run sw cmds) document_id word"
  then show "MatchDocument (run sw cmds) raw_query document_id = Inr ([], status d)"
    by (simp add: MatchDocument_def MatchDocument_seq_def minus_loop_list_ex list_ex_iff)
next
  fix query d assume q: "ParseQuery (run sw cmds) raw_query False = Inr query"
    and d: "fmlookup (documents (run sw cmds)) document_id = Some d"
    and m: "\<not> (\<exists>word \<in> set (minus_words query). word_checker (run sw cmds) document_id word)"
  let ?words = "filter (word_checker (run sw cmds) document_id) (plus_words query)"
  have "MatchDocument (run sw cmds) raw_query document_id = Inr (?words, status d)"
    using q d m
    by (simp add: MatchDocument_def MatchDocument_seq_def minus_loop_list_ex list_ex_iff plus_loop_filter)
  moreover have "sorted ?words" "distinct ?words"
    using ParseQuery_sorted_distinct [OF q] by (simp_all add: sorted_wrt_filter)
  moreover have "set ?words = {word \<in> set (plus_words query). word_checker (run sw cmds) document_id word}"
    by auto
  ultimately show "\<exists>words. MatchDocument (run sw cmds) raw_query document_id = Inr (words, status d) \<and>
               sorted words \<and> distinct words \<and>
               set words = {word \<in> set (plus_words query). word_checker (run sw cmds) document_id word}"
    by blast
qed

theorem MatchDocument_contract_witness:
  "MatchDocument (new_server {||}) ''--cat'' 1 = Inl (invalid_argument ''Query word -cat is invalid'') \<and>
   MatchDocument (run {|''the''|} [Add 1 ''cat the dog'' ACTIVE [5]]) ''dog'' 7 = Inl out_of_range \<and>
   MatchDocument (run {|''the''|} [Add 1 ''cat the dog'' ACTIVE [5]]) ''dog -cat'' 1 = Inr ([], ACTIVE) \<and>
   (\<exists>words. MatchDocument (run {|''the''|} [Add 1 ''cat the dog'' ACTIVE [5]]) ''dog cat -rat dog'' 1 =
        Inr (words, ACTIVE) \<and> sorted words \<and> distinct words \<and>
      set words = {word \<in> set [''cat'', ''dog''].
                     word_checker (run {|''the''|} [Add 1 ''cat the dog'' ACTIVE [5]]) 1 word})"
proof -
  let ?s = "run {|''the''|} [Add 1 ''cat the dog'' ACTIVE [5]]"
  have p0: "ParseQuery (new_server {||}) ''--cat'' False = Inl (invalid_argument ''Query word -cat is invalid'')"
    by code_simp
  have p1: "ParseQuery ?s ''dog'' False = Inr \<lparr>plus_words = [''dog''], minus_words = []\<rparr>"
    by code_simp
  have d1: "fmlookup (documents ?s) 7 = None"
    by code_simp
  have p2: "ParseQuery ?s ''dog -cat'' False = Inr \<lparr>plus_words = [''dog''], minus_words = [''cat'']\<rparr>"
    by code_simp
  have m2: "word_checker ?s 1 ''cat''"
    by code_simp
  have p: "ParseQuery ?s ''dog cat -rat dog'' False =
     Inr \<lparr>plus_words = [''cat'', ''dog''], minus_words = [''rat'']\<rparr>"
    by code_simp
  have d: "fmlookup (documents ?s) 1 =
     Some \<lparr>rating = 5, status = ACTIVE, doc_text = ''cat the dog''\<rparr>"
    by code_simp
  have m: "\<not> word_checker ?s 1 ''rat''"
    by code_simp
  have c0: "MatchDocument (new_server {||}) ''--cat'' 1 = Inl (invalid_argument ''Query word -cat is invalid'')"
    using MatchDocument_contract [of "{||}" "[]" "''--cat''" 1] p0 by (simp add: run_def)
  have c1: "MatchDocument ?s ''dog'' 7 = Inl out_of_range"
    using MatchDocument_contract [of "{|''the''|}" "[Add 1 ''cat the dog'' ACTIVE [5]]" "''dog''" 7] p1 d1 by simp
  have c2: "MatchDocument ?s ''dog -cat'' 1 = Inr ([], ACTIVE)"
    using MatchDocument_contract [of "{|''the''|}" "[Add 1 ''cat the dog'' ACTIVE [5]]" "''dog -cat''" 1] p2 d m2 by simp
  have c3: "\<exists>words. MatchDocument ?s ''dog cat -rat dog'' 1 =
        Inr (words, ACTIVE) \<and> sorted words \<and> distinct words \<and>
      set words = {word \<in> set [''cat'', ''dog'']. word_checker ?s 1 word}"
    using MatchDocument_contract [of "{|''the''|}" "[Add 1 ''cat the dog'' ACTIVE [5]]" "''dog cat -rat dog''" 1] p d m by simp
  from c0 c1 c2 c3 show ?thesis by (intro conjI)
qed

text \<open>
  C6 (as the code has it). For the query \<open>--cat\<close> and an unknown id the exception is the
  \<open>invalid_argument\<close> of the parser, not \<open>out_of_range\<close>.
\<close>

theorem MatchDocument_query_error_first:
  "fmlookup (documents (new_server {||})) 1 = None \<and>
   MatchDocument (new_server {||}) ''--cat'' 1 = Inl (invalid_argument ''Query word -cat is invalid'') \<and>
   MatchDocument (new_server {||}) ''--cat'' 1 \<noteq> Inl out_of_range"
proof -
  have "fmlookup (documents (new_server {||})) 1 = None"
    by (simp add: new_server_def)
  moreover have "MatchDocument (new_server {||}) ''--cat'' 1 = Inl (invalid_argument ''Query word -cat is invalid'')"
    by code_simp
  ultimately show ?thesis by simp
qed

text \<open>
  Rounding can leave a frequency above 1: nine additions of \<open>1.0 / 9\<close> give
  \<open>1 + 2\<^sup>-\<^sup>5\<^sup>2\<close>, the double that prints as \<open>1.0000000000000002\<close>.
\<close>

lemma nine_ninths:
  "double_sum 9 (double_div 1 (to_double 9)) = 4503599627370497 / 4503599627370496"
proof -
  have x: "double_div 1 (to_double 9) = 2001599834386887 / 18014398509481984"
    by code_simp
  have a1: "double_add 0 (2001599834386887 / 18014398509481984) = 2001599834386887 / 18014398509481984"
    by code_simp
  have a2: "double_add (2001599834386887 / 18014398509481984) (2001599834386887 / 18014398509481984)
      = 2001599834386887 / 9007199254740992"
    by code_simp
  have a3: "double_add (2001599834386887 / 9007199254740992) (2001599834386887 / 18014398509481984)
      = 6004799503160661 / 18014398509481984"
    by code_simp
  have a4: "double_add (6004799503160661 / 18014398509481984) (2001599834386887 / 18014398509481984)
      = 2001599834386887 / 4503599627370496"
    by code_simp
  have a5: "double_add (2001599834386887 / 4503599627370496) (2001599834386887 / 18014398509481984)
      = 2501999792983609 / 4503599627370496"
    by code_simp
  have a6: "double_add (2501999792983609 / 4503599627370496) (2001599834386887 / 18014398509481984)
      = 3002399751580331 / 4503599627370496"
    by code_simp
  have a7: "double_add (3002399751580331 / 4503599627370496) (2001599834386887 / 18014398509481984)
      = 3502799710177053 / 4503599627370496"
    by code_simp
  have a8: "double_add (3502799710177053 / 4503599627370496) (2001599834386887 / 18014398509481984)
      = 4003199668773775 / 4503599627370496"
    by code_simp
  have a9: "double_add (4003199668773775 / 4503599627370496) (2001599834386887 / 18014398509481984)
      = 4503599627370497 / 4503599627370496"
    by code_simp
  have nine: "(9::nat) = Suc (Suc (Suc (Suc (Suc (Suc (Suc (Suc (Suc 0))))))))"
    by simp
  have "double_sum 9 (2001599834386887 / 18014398509481984) = 4503599627370497 / 4503599627370496"
    unfolding nine
    by (simp only: double_sum_def funpow.simps comp_apply id_apply a1 a2 a3 a4 a5 a6 a7 a8 a9)
  then show ?thesis unfolding x .
qed

lemma frequency_above_one:
  "fmlookup (GetWordFrequencies (run {||} [Add 1 ''a a a a a a a a a'' ACTIVE []]) 1) ''a''
     = Some (1 + 1 / 2 ^ 52)"
proof -
  let ?s = "run {||} [Add 1 ''a a a a a a a a a'' ACTIVE []]"
  let ?ws = "[''a'', ''a'', ''a'', ''a'', ''a'', ''a'', ''a'', ''a'', ''a'']"
  let ?x = "double_div 1 (to_double (real (length ?ws)))"
  let ?s1 = "new_server {||}\<lparr>documents :=
      fmupd 1 \<lparr>rating = ComputeAverageRating [], status = ACTIVE, doc_text = ''a a a a a a a a a''\<rparr>
        (documents (new_server {||}))\<rparr>"
  have split: "SplitIntoWordsNoStop (new_server {||}) ''a a a a a a a a a'' = Inr ?ws"
    by code_simp
  have cnt: "count_list ?ws ''a'' = 9" and len: "length ?ws = 9"
    by simp_all
  have fresh: "1 |\<notin>| fmdom (documents (new_server {||}))"
    by (simp add: new_server_def)
  have none: "fwd_posting ?s1 1 w = None" for w
    by (simp add: fwd_posting_def new_server_def)
  have add: "AddDocument (new_server {||}) 1 ''a a a a a a a a a'' ACTIVE [] =
      (Inr (), (fold (index_word 1 ?x) ?ws ?s1)\<lparr>document_ids := finsert 1 (document_ids (new_server {||}))\<rparr>)"
    by (rule AddDocument_ok [OF _ fresh split]) simp
  have run: "?s = snd (AddDocument (new_server {||}) 1 ''a a a a a a a a a'' ACTIVE [])"
    by (simp add: run_def)
  have "fmlookup (GetWordFrequencies ?s 1) ''a'' = fwd_posting ?s 1 ''a''"
    by (simp add: GetWordFrequencies_def fwd_posting_def split: option.splits)
  also have "\<dots> = fwd_posting (fold (index_word 1 ?x) ?ws ?s1) 1 ''a''"
    unfolding run add by (simp only: snd_conv posting_documents_update)
  also have "\<dots> = (if ''a'' \<in> set ?ws then Some (double_sum (count_list ?ws ''a'') ?x) else None)"
    by (rule fwd_posting_fold_new) (rule none)
  also have "\<dots> = Some (double_sum (count_list ?ws ''a'') ?x)"
    by simp
  also have "\<dots> = Some (double_sum 9 (double_div 1 (to_double 9)))"
    unfolding cnt len by simp
  also have "\<dots> = Some (4503599627370497 / 4503599627370496)"
    by (simp only: nine_ninths)
  also have "\<dots> = Some (1 + 1 / 2 ^ 52)"
    by simp
  finally show ?thesis .
qed

end
